theory Spec2Isabelle
  imports Main "HOL-Library.Word"
begin

section \<open>The thread pool of util/threadpool.h as an interleaving transition system\<close>

text \<open>
  The class \<^verbatim>\<open>leveldb::ThreadPool\<close> is a set of worker threads running \<^verbatim>\<open>Task\<close>, and
  caller threads running \<^verbatim>\<open>AddJob\<close>, \<^verbatim>\<open>JoinAll\<close>, \<^verbatim>\<open>WaitAll\<close> and the destructor.
  Every thread is modelled by a program counter; one transition is one access to the shared
  members of the object (an atomic load, store or read-modify-write, a mutex operation, a
  condition-variable operation, a queue operation under the queue mutex). The atomics are
  sequentially consistent (the default of \<^verbatim>\<open>std::atomic\<close>), so an execution is an
  interleaving of such transitions.
\<close>

subsection \<open>Jobs, packaged tasks and futures\<close>

text \<open>
  What the bound callable \<^verbatim>\<open>f(args...)\<close> does when it is run: it returns a value or it
  throws. A callable that never returns is a worker that never takes its next transition.
\<close>

datatype outcome = Returns int | Throws string

text \<open>
  The shared state of a \<^verbatim>\<open>std::packaged_task\<close> and its \<^verbatim>\<open>std::future\<close>: not ready, or
  holding a value, or the exception that the callable threw, or the
  \<^verbatim>\<open>std::future_error\<close> with code \<^verbatim>\<open>broken_promise\<close> that the destructor of a packaged task
  stores when the task was never run.
\<close>

datatype slot = Pending | Value int | Exception string | Broken_promise

text \<open>
  An element of \<^verbatim>\<open>queue\<close>: the closure \<^verbatim>\<open>[job]{ (*job)(); }\<close> that \<^verbatim>\<open>AddJob\<close> builds
  around the packaged task with shared state number \<open>h\<close>, or the empty closure \<^verbatim>\<open>[]{}\<close>
  that \<^verbatim>\<open>next_job\<close> hands out when the pool bails out.
\<close>

datatype job = Packaged nat outcome | Noop

text \<open>
  \<^verbatim>\<open>std::packaged_task::operator()\<close>: the callable runs, and its return value or the
  exception it throws is stored in the shared state.
\<close>

fun packaged_task_call :: "outcome \<Rightarrow> slot" where
  "packaged_task_call (Returns v) = Value v"
| "packaged_task_call (Throws e) = Exception e"

text \<open>
  \<^verbatim>\<open>std::future::get\<close>: blocks (\<open>None\<close>) while the shared state is not ready, then returns
  the value (\<open>Inr\<close>) or rethrows the stored exception (\<open>Inl\<close>).
\<close>

fun future_get :: "slot \<Rightarrow> (string + int) option" where
  "future_get Pending = None"
| "future_get (Value v) = Some (Inr v)"
| "future_get (Exception e) = Some (Inl e)"
| "future_get Broken_promise = Some (Inl ''std::future_error: Broken promise'')"

text \<open>
  The destructor of an element of \<^verbatim>\<open>queue\<close>. The closure holds the only
  \<^verbatim>\<open>shared_ptr\<close> to its packaged task (the one in \<^verbatim>\<open>AddJob\<close> ends with the call), so the
  packaged task is destroyed with it; \<^verbatim>\<open>~packaged_task\<close> abandons the shared state, which
  stores \<^verbatim>\<open>broken_promise\<close> if it is not ready.
\<close>

fun abandon :: "job \<Rightarrow> slot list \<Rightarrow> slot list" where
  "abandon (Packaged h f) fs =
     (if h < length fs \<and> fs ! h = Pending then fs[h := Broken_promise] else fs)"
| "abandon Noop fs = fs"

subsection \<open>Threads\<close>

datatype tid = Worker nat | Client nat

text \<open>
  Program points of \<^verbatim>\<open>Task\<close>, with \<^verbatim>\<open>next_job\<close> inlined:
  \<^item> \<open>W_Loop\<close>: the test \<^verbatim>\<open>while( !bailout )\<close>;
  \<^item> \<open>W_Lock\<close>: \<^verbatim>\<open>unique_lock job_lock( queue_mutex )\<close>;
  \<^item> \<open>W_Pred\<close>: the predicate \<^verbatim>\<open>queue.size() || bailout\<close> of the wait;
  \<^item> \<open>W_Wait\<close>: \<^verbatim>\<open>job_available_var.wait\<close> releases the mutex and blocks;
  \<^item> \<open>W_Blocked\<close>: blocked on \<^verbatim>\<open>job_available_var\<close>;
  \<^item> \<open>W_Woken\<close>: unblocked, reacquiring the mutex;
  \<^item> \<open>W_Test\<close>: the test \<^verbatim>\<open>if( !bailout )\<close>;
  \<^item> \<open>W_Pop\<close>: \<^verbatim>\<open>res = queue.front(); queue.pop_front()\<close>;
  \<^item> \<open>W_Inject\<close>: \<^verbatim>\<open>res = []{}; ++jobs_left\<close>;
  \<^item> \<open>W_Unlock res\<close>: \<^verbatim>\<open>return res\<close>, which releases the mutex;
  \<^item> \<open>W_Call res\<close>: the call \<^verbatim>\<open>next_job()()\<close> starts;
  \<^item> \<open>W_Exec h f\<close>: the packaged task \<open>h\<close> is running its callable \<open>f\<close>;
  \<^item> \<open>W_Dec\<close>: \<^verbatim>\<open>--jobs_left\<close>;
  \<^item> \<open>W_Notify\<close>: \<^verbatim>\<open>wait_var.notify_one()\<close>;
  \<^item> \<open>W_Exit\<close>: \<^verbatim>\<open>Task\<close> has returned.
\<close>

datatype wpc =
    W_Loop | W_Lock | W_Pred | W_Wait | W_Blocked | W_Woken | W_Test | W_Pop | W_Inject
  | W_Unlock job | W_Call job | W_Exec nat outcome | W_Dec | W_Notify | W_Exit

text \<open>An element of \<^verbatim>\<open>threads\<close>: the thread's program point and \<^verbatim>\<open>std::thread::joinable\<close>.\<close>

record worker =
  wpc :: wpc
  joinable :: bool

text \<open>
  Program points of a caller. In \<open>A_\<close> (\<^verbatim>\<open>AddJob\<close>) the argument is the callable, then the
  number of the shared state; in \<open>J_\<close> (\<^verbatim>\<open>JoinAll\<close>) the boolean is the parameter
  \<^verbatim>\<open>WaitForAll\<close>; in \<open>WA_\<close> (\<^verbatim>\<open>WaitAll\<close>) the boolean says that the caller is
  \<^verbatim>\<open>JoinAll\<close>.
  \<^item> \<open>A_Lock\<close>: \<^verbatim>\<open>lock_guard guard( queue_mutex )\<close>;
  \<^item> \<open>A_Enqueue\<close>: \<^verbatim>\<open>make_shared\<close>, \<^verbatim>\<open>get_future\<close>, \<^verbatim>\<open>queue.emplace_back\<close>;
  \<^item> \<open>A_Inc\<close>: \<^verbatim>\<open>++jobs_left\<close>;
  \<^item> \<open>A_Notify\<close>: \<^verbatim>\<open>job_available_var.notify_one()\<close>;
  \<^item> \<open>A_Unlock\<close>: \<^verbatim>\<open>return future\<close>, which releases the mutex;
  \<^item> \<open>J_Entry\<close>: the test \<^verbatim>\<open>if( !finished )\<close>, then \<^verbatim>\<open>if( WaitForAll )\<close>;
  \<^item> \<open>J_Bail\<close>: \<^verbatim>\<open>bailout = true\<close>;
  \<^item> \<open>J_NotifyAll\<close>: \<^verbatim>\<open>job_available_var.notify_all()\<close>;
  \<^item> \<open>J_Check i\<close>: the loop over \<^verbatim>\<open>threads\<close> is at element \<open>i\<close>, test \<^verbatim>\<open>x.joinable()\<close>;
  \<^item> \<open>J_JoinWait i\<close>: \<^verbatim>\<open>x.join()\<close>;
  \<^item> \<open>J_Fin\<close>: \<^verbatim>\<open>finished = true\<close> and return;
  \<^item> \<open>WA_Test\<close>: the test \<^verbatim>\<open>if( jobs_left > 0 )\<close>;
  \<^item> \<open>WA_Lock\<close>: \<^verbatim>\<open>unique_lock lk( wait_mutex )\<close>;
  \<^item> \<open>WA_Pred\<close>: the predicate \<^verbatim>\<open>jobs_left == 0\<close> of the wait;
  \<^item> \<open>WA_Wait\<close>: \<^verbatim>\<open>wait_var.wait\<close> releases the mutex and blocks;
  \<^item> \<open>WA_Blocked\<close>: blocked on \<^verbatim>\<open>wait_var\<close>;
  \<^item> \<open>WA_Woken\<close>: unblocked, reacquiring the mutex;
  \<^item> \<open>WA_Unlock\<close>: \<^verbatim>\<open>lk.unlock()\<close> and return;
  \<^item> \<open>C_Destroyed\<close>: the destructor has returned;
  \<^item> \<open>C_Threw\<close>: \<^verbatim>\<open>std::thread::join\<close> threw \<^verbatim>\<open>std::system_error\<close> out of \<^verbatim>\<open>JoinAll\<close>.
\<close>

datatype cpc =
    C_Idle
  | A_Lock outcome | A_Enqueue outcome | A_Inc nat | A_Notify nat | A_Unlock nat
  | J_Entry bool | J_Bail bool | J_NotifyAll bool | J_Check bool nat | J_JoinWait bool nat
  | J_Fin bool
  | WA_Test bool | WA_Lock bool | WA_Pred bool | WA_Wait bool | WA_Blocked bool
  | WA_Woken bool | WA_Unlock bool
  | C_Destroyed | C_Threw

text \<open>
  A caller thread: its program point, whether it is inside \<^verbatim>\<open>~ThreadPool\<close>, and the futures
  that its calls of \<^verbatim>\<open>AddJob\<close> have returned, oldest first.
\<close>

record client =
  cpc :: cpc
  dtor :: bool
  futs :: "nat list"

subsection \<open>The state\<close>

text \<open>How an execution can end: the object is destroyed, or the process is lost.\<close>

datatype ending =
    Destroyed
  | Pop_empty       \<comment> \<open>\<^verbatim>\<open>queue.front()\<close> on an empty list: undefined behaviour\<close>
  | Terminate       \<comment> \<open>an exception left a thread function or a destructor: \<^verbatim>\<open>std::terminate\<close>\<close>

datatype event = Start nat | Finish nat

text \<open>
  The members of the class (\<open>threads\<close> to \<open>threadcount\<close>), the shared states of the packaged
  tasks, the caller threads, and history variables that no transition reads:
  \<open>submitted\<close> and \<open>dequeued\<close> list the closures in the order of \<^verbatim>\<open>emplace_back\<close> and of
  \<^verbatim>\<open>pop_front\<close>, \<open>events\<close> lists the starts and ends of the packaged tasks' runs,
  \<open>accepted\<close> counts the jobs that \<^verbatim>\<open>AddJob\<close> has appended to the queue, \<open>injected\<close> the
  empty jobs that \<^verbatim>\<open>next_job\<close> has made up, and \<open>completed\<close> the jobs, packaged or empty,
  whose call \<^verbatim>\<open>next_job()()\<close> in \<^verbatim>\<open>Task\<close> has returned.

  \<open>jobs_left\<close> is a \<^verbatim>\<open>std::atomic_int\<close>; it is modelled as an unbounded integer, which is
  exact as long as fewer than \<open>2^31\<close> jobs are outstanding at once.
\<close>

record pool =
  threads :: "worker list"
  queue :: "job list"
  jobs_left :: int
  bailout :: bool
  finished :: bool
  queue_mutex :: "tid option"
  wait_mutex :: "tid option"
  threadcount :: "32 word"
  futures :: "slot list"
  clients :: "client list"
  ended :: "ending option"
  submitted :: "job list"
  dequeued :: "job list"
  events :: "event list"
  accepted :: nat
  injected :: nat
  completed :: nat

subsection \<open>Construction\<close>

datatype error = Length_error

text \<open>
  \<^verbatim>\<open>std::vector::resize\<close> throws \<^verbatim>\<open>std::length_error\<close> above \<^verbatim>\<open>max_size()\<close>, which belongs
  to the standard library and not to this repository. The value is the one of libstdc++ for an
  8-byte element, \<^verbatim>\<open>PTRDIFF_MAX / sizeof(std::thread)\<close>; no implementation has a
  \<^verbatim>\<open>max_size()\<close> above \<^verbatim>\<open>PTRDIFF_MAX\<close>, and a negative \<^verbatim>\<open>int\<close> converts to more than that.
\<close>

definition vector_max_size :: "64 word" where
  "vector_max_size = 0x0FFFFFFFFFFFFFFF"

text \<open>
  The state the constructor leaves: the member initialisers, and one thread in \<^verbatim>\<open>Task\<close> for
  each iteration of the loop \<^verbatim>\<open>for( unsigned i = 0; i < threadcount; ++i )\<close>, which compares
  as \<^verbatim>\<open>unsigned\<close>. The first argument is the number of caller threads of the execution.
\<close>

definition initial_pool :: "nat \<Rightarrow> 32 word \<Rightarrow> pool" where
  "initial_pool ncallers n =
     \<lparr> threads = replicate (unat n) \<lparr> wpc = W_Loop, joinable = True \<rparr>,
       queue = [], jobs_left = 0, bailout = False, finished = False,
       queue_mutex = None, wait_mutex = None, threadcount = n,
       futures = [],
       clients = replicate ncallers \<lparr> cpc = C_Idle, dtor = False, futs = [] \<rparr>,
       ended = None, submitted = [], dequeued = [], events = [],
       accepted = 0, injected = 0, completed = 0 \<rparr>"

text \<open>
  The constructor. \<^verbatim>\<open>threads.resize(threadcount)\<close> converts the \<^verbatim>\<open>int\<close> to \<^verbatim>\<open>size_t\<close>
  (sign extension to 64 bits) and throws when that is above \<^verbatim>\<open>max_size()\<close>.
\<close>

definition ThreadPool :: "nat \<Rightarrow> 32 word \<Rightarrow> error + pool" where
  "ThreadPool ncallers n =
     (if vector_max_size < (scast n :: 64 word) then Inl Length_error
      else Inr (initial_pool ncallers n))"

text \<open>\<^verbatim>\<open>Size\<close> returns the \<^verbatim>\<open>int\<close> member as \<^verbatim>\<open>unsigned\<close>.\<close>

definition Size :: "pool \<Rightarrow> nat" where
  "Size s = unat (threadcount s)"

text \<open>\<^verbatim>\<open>JobsRemaining\<close>, between its lock and unlock of the queue mutex.\<close>

definition JobsRemaining :: "pool \<Rightarrow> nat" where
  "JobsRemaining s = length (queue s)"

subsection \<open>Transitions\<close>

definition set_wpc :: "nat \<Rightarrow> wpc \<Rightarrow> pool \<Rightarrow> pool" where
  "set_wpc i p s = s\<lparr> threads := (threads s)[i := (threads s ! i)\<lparr> wpc := p \<rparr>] \<rparr>"

definition set_cpc :: "nat \<Rightarrow> cpc \<Rightarrow> pool \<Rightarrow> pool" where
  "set_cpc c p s = s\<lparr> clients := (clients s)[c := (clients s ! c)\<lparr> cpc := p \<rparr>] \<rparr>"

text \<open>The threads blocked on \<^verbatim>\<open>job_available_var\<close> and on \<^verbatim>\<open>wait_var\<close>.\<close>

definition job_waiting :: "worker \<Rightarrow> bool" where
  "job_waiting w = (wpc w = W_Blocked)"

fun is_WA_Blocked :: "cpc \<Rightarrow> bool" where
  "is_WA_Blocked (WA_Blocked k) = True"
| "is_WA_Blocked _ = False"

definition idle_waiting :: "client \<Rightarrow> bool" where
  "idle_waiting c = is_WA_Blocked (cpc c)"

text \<open>\<^verbatim>\<open>notify_all\<close> on \<^verbatim>\<open>job_available_var\<close> unblocks every thread blocked on it.\<close>

definition notify_all :: "worker list \<Rightarrow> worker list" where
  "notify_all ts = map (\<lambda>x. if job_waiting x then x\<lparr> wpc := W_Woken \<rparr> else x) ts"

text \<open>One transition of worker \<open>i\<close> other than a \<^verbatim>\<open>notify_one\<close> that wakes a thread.\<close>

definition worker_step :: "nat \<Rightarrow> pool \<Rightarrow> pool option" where
  "worker_step i s =
    (if length (threads s) \<le> i then None
     else case wpc (threads s ! i) of
       W_Loop \<Rightarrow> Some (set_wpc i (if bailout s then W_Exit else W_Lock) s)
     | W_Lock \<Rightarrow>
         (if queue_mutex s = None
          then Some (set_wpc i W_Pred (s\<lparr> queue_mutex := Some (Worker i) \<rparr>))
          else None)
     | W_Pred \<Rightarrow> Some (set_wpc i (if queue s \<noteq> [] \<or> bailout s then W_Test else W_Wait) s)
     | W_Wait \<Rightarrow> Some (set_wpc i W_Blocked (s\<lparr> queue_mutex := None \<rparr>))
     | W_Blocked \<Rightarrow> None
     | W_Woken \<Rightarrow>
         (if queue_mutex s = None
          then Some (set_wpc i W_Pred (s\<lparr> queue_mutex := Some (Worker i) \<rparr>))
          else None)
     | W_Test \<Rightarrow> Some (set_wpc i (if \<not> bailout s then W_Pop else W_Inject) s)
     | W_Pop \<Rightarrow>
         (case queue s of
            [] \<Rightarrow> Some (s\<lparr> ended := Some Pop_empty \<rparr>)
          | j # q \<Rightarrow> Some (set_wpc i (W_Unlock j)
                            (s\<lparr> queue := q, dequeued := dequeued s @ [j] \<rparr>)))
     | W_Inject \<Rightarrow>
         Some (set_wpc i (W_Unlock Noop)
                 (s\<lparr> jobs_left := jobs_left s + 1, injected := injected s + 1 \<rparr>))
     | W_Unlock j \<Rightarrow> Some (set_wpc i (W_Call j) (s\<lparr> queue_mutex := None \<rparr>))
     | W_Call j \<Rightarrow>
         (case j of
            Noop \<Rightarrow> Some (set_wpc i W_Dec (s\<lparr> completed := completed s + 1 \<rparr>))
          | Packaged h f \<Rightarrow> Some (set_wpc i (W_Exec h f) (s\<lparr> events := events s @ [Start h] \<rparr>)))
     | W_Exec h f \<Rightarrow>
         (if h < length (futures s) \<and> futures s ! h = Pending
          then Some (set_wpc i W_Dec
                       (s\<lparr> futures := (futures s)[h := packaged_task_call f],
                           events := events s @ [Finish h],
                           completed := completed s + 1 \<rparr>))
          else Some (s\<lparr> ended := Some Terminate \<rparr>))
     | W_Dec \<Rightarrow> Some (set_wpc i W_Notify (s\<lparr> jobs_left := jobs_left s - 1 \<rparr>))
     | W_Notify \<Rightarrow>
         (if list_ex idle_waiting (clients s) then None else Some (set_wpc i W_Loop s))
     | W_Exit \<Rightarrow> None)"

text \<open>The return of \<^verbatim>\<open>WaitAll\<close> to its caller.\<close>

definition WaitAll_return :: "nat \<Rightarrow> bool \<Rightarrow> pool \<Rightarrow> pool" where
  "WaitAll_return c k s = set_cpc c (if k then J_Bail True else C_Idle) s"

text \<open>
  The end of \<^verbatim>\<open>~ThreadPool\<close>, after its call of \<^verbatim>\<open>JoinAll\<close> has returned: the members are
  destroyed. The destruction of \<^verbatim>\<open>queue\<close> destroys the closures that are still in it. The
  shared states outlive the object, in the futures that the callers hold; the members do
  not, and the record keeps their last values. The destruction of \<^verbatim>\<open>threads\<close> calls
  \<^verbatim>\<open>std::terminate\<close> for an element that is joinable; \<^verbatim>\<open>JoinAll\<close> returns with none left
  (lemma \<open>destroyed_all_joined\<close>), so this is not a transition of the model.
\<close>

definition end_of_life :: "nat \<Rightarrow> pool \<Rightarrow> pool" where
  "end_of_life c s =
     (set_cpc c C_Destroyed s)\<lparr> ended := Some Destroyed,
                                 futures := fold abandon (queue s) (futures s) \<rparr>"

text \<open>The return of \<^verbatim>\<open>JoinAll\<close> to its caller, which may be the destructor.\<close>

definition JoinAll_return :: "nat \<Rightarrow> pool \<Rightarrow> pool" where
  "JoinAll_return c s =
     (if dtor (clients s ! c) then end_of_life c s else set_cpc c C_Idle s)"

text \<open>One transition of caller \<open>c\<close> other than a \<^verbatim>\<open>notify_one\<close> that wakes a thread.\<close>

definition client_step :: "nat \<Rightarrow> pool \<Rightarrow> pool option" where
  "client_step c s =
    (if length (clients s) \<le> c then None
     else case cpc (clients s ! c) of
       C_Idle \<Rightarrow> None
     | A_Lock f \<Rightarrow>
         (if queue_mutex s = None
          then Some (set_cpc c (A_Enqueue f) (s\<lparr> queue_mutex := Some (Client c) \<rparr>))
          else None)
     | A_Enqueue f \<Rightarrow>
         Some (set_cpc c (A_Inc (length (futures s)))
                 (s\<lparr> futures := futures s @ [Pending],
                     queue := queue s @ [Packaged (length (futures s)) f],
                     submitted := submitted s @ [Packaged (length (futures s)) f],
                     accepted := accepted s + 1 \<rparr>))
     | A_Inc h \<Rightarrow> Some (set_cpc c (A_Notify h) (s\<lparr> jobs_left := jobs_left s + 1 \<rparr>))
     | A_Notify h \<Rightarrow>
         (if list_ex job_waiting (threads s) then None else Some (set_cpc c (A_Unlock h) s))
     | A_Unlock h \<Rightarrow>
         Some (s\<lparr> queue_mutex := None,
                  clients := (clients s)[c := (clients s ! c)
                     \<lparr> cpc := C_Idle, futs := futs (clients s ! c) @ [h] \<rparr>] \<rparr>)
     | J_Entry w \<Rightarrow>
         (if \<not> finished s
          then Some (set_cpc c (if w then WA_Test True else J_Bail w) s)
          else Some (JoinAll_return c s))
     | J_Bail w \<Rightarrow> Some (set_cpc c (J_NotifyAll w) (s\<lparr> bailout := True \<rparr>))
     | J_NotifyAll w \<Rightarrow>
         Some (set_cpc c (J_Check w 0)
                 (s\<lparr> threads := notify_all (threads s) \<rparr>))
     | J_Check w i \<Rightarrow>
         (if i < length (threads s)
          then Some (set_cpc c (if joinable (threads s ! i) then J_JoinWait w i
                                else J_Check w (i + 1)) s)
          else Some (set_cpc c (J_Fin w) s))
     | J_JoinWait w i \<Rightarrow>
         (if length (threads s) \<le> i \<or> wpc (threads s ! i) \<noteq> W_Exit then None
          else if joinable (threads s ! i)
          then Some (set_cpc c (J_Check w (i + 1))
                       (s\<lparr> threads := (threads s)[i := (threads s ! i)\<lparr> joinable := False \<rparr>] \<rparr>))
          else if dtor (clients s ! c) then Some (s\<lparr> ended := Some Terminate \<rparr>)
          else Some (set_cpc c C_Threw s))
     | J_Fin w \<Rightarrow> Some (JoinAll_return c (s\<lparr> finished := True \<rparr>))
     | WA_Test k \<Rightarrow>
         (if jobs_left s > 0 then Some (set_cpc c (WA_Lock k) s)
          else Some (WaitAll_return c k s))
     | WA_Lock k \<Rightarrow>
         (if wait_mutex s = None
          then Some (set_cpc c (WA_Pred k) (s\<lparr> wait_mutex := Some (Client c) \<rparr>))
          else None)
     | WA_Pred k \<Rightarrow> Some (set_cpc c (if jobs_left s = 0 then WA_Unlock k else WA_Wait k) s)
     | WA_Wait k \<Rightarrow> Some (set_cpc c (WA_Blocked k) (s\<lparr> wait_mutex := None \<rparr>))
     | WA_Blocked k \<Rightarrow> None
     | WA_Woken k \<Rightarrow>
         (if wait_mutex s = None
          then Some (set_cpc c (WA_Pred k) (s\<lparr> wait_mutex := Some (Client c) \<rparr>))
          else None)
     | WA_Unlock k \<Rightarrow> Some (WaitAll_return c k (s\<lparr> wait_mutex := None \<rparr>))
     | C_Destroyed \<Rightarrow> None
     | C_Threw \<Rightarrow> None)"

text \<open>
  The calls a caller thread can make. \<^verbatim>\<open>~ThreadPool\<close> calls \<^verbatim>\<open>JoinAll()\<close>, whose parameter
  defaults to \<^verbatim>\<open>true\<close>.
\<close>

datatype call = AddJob outcome | JoinAll bool | WaitAll | Destroy

definition call_step :: "nat \<Rightarrow> call \<Rightarrow> pool \<Rightarrow> pool option" where
  "call_step c m s =
    (if length (clients s) \<le> c \<or> cpc (clients s ! c) \<noteq> C_Idle then None
     else case m of
       AddJob f \<Rightarrow> Some (set_cpc c (A_Lock f) s)
     | JoinAll w \<Rightarrow> Some (set_cpc c (J_Entry w) s)
     | WaitAll \<Rightarrow> Some (set_cpc c (WA_Test False) s)
     | Destroy \<Rightarrow>
         Some (s\<lparr> clients := (clients s)[c := (clients s ! c)
                    \<lparr> cpc := J_Entry True, dtor := True \<rparr>] \<rparr>))"

text \<open>
  \<^verbatim>\<open>notify_one\<close> with a thread to unblock: thread \<open>t\<close> is at its \<^verbatim>\<open>notify_one\<close>, thread
  \<open>u\<close> is blocked on that condition variable and is the one unblocked.
\<close>

definition wake_step :: "tid \<Rightarrow> tid \<Rightarrow> pool \<Rightarrow> pool option" where
  "wake_step t u s =
    (case (t, u) of
       (Client c, Worker i) \<Rightarrow>
         (if c < length (clients s) \<and> i < length (threads s)
          then (case cpc (clients s ! c) of
                  A_Notify h \<Rightarrow>
                    (if job_waiting (threads s ! i)
                     then Some (set_cpc c (A_Unlock h) (set_wpc i W_Woken s))
                     else None)
                | _ \<Rightarrow> None)
          else None)
     | (Worker i, Client c) \<Rightarrow>
         (if c < length (clients s) \<and> i < length (threads s) \<and> wpc (threads s ! i) = W_Notify
          then (case cpc (clients s ! c) of
                  WA_Blocked k \<Rightarrow> Some (set_wpc i W_Loop (set_cpc c (WA_Woken k) s))
                | _ \<Rightarrow> None)
          else None)
     | _ \<Rightarrow> None)"

text \<open>A spurious wakeup of a thread blocked on a condition variable.\<close>

definition spurious_step :: "tid \<Rightarrow> pool \<Rightarrow> pool option" where
  "spurious_step u s =
    (case u of
       Worker i \<Rightarrow>
         (if i < length (threads s) \<and> job_waiting (threads s ! i)
          then Some (set_wpc i W_Woken s) else None)
     | Client c \<Rightarrow>
         (if c < length (clients s)
          then (case cpc (clients s ! c) of
                  WA_Blocked k \<Rightarrow> Some (set_cpc c (WA_Woken k) s)
                | _ \<Rightarrow> None)
          else None))"

datatype action = Call nat call | Step tid | Wake tid tid | Spurious tid

text \<open>Nothing moves once the object is destroyed or the process is lost.\<close>

definition step :: "action \<Rightarrow> pool \<Rightarrow> pool option" where
  "step a s =
    (if ended s \<noteq> None then None
     else case a of
       Call c m \<Rightarrow> call_step c m s
     | Step (Worker i) \<Rightarrow> worker_step i s
     | Step (Client c) \<Rightarrow> client_step c s
     | Wake t u \<Rightarrow> wake_step t u s
     | Spurious u \<Rightarrow> spurious_step u s)"

fun run :: "action list \<Rightarrow> pool \<Rightarrow> pool option" where
  "run [] s = Some s"
| "run (a # as) s = (case step a s of None \<Rightarrow> None | Some s' \<Rightarrow> run as s')"

inductive reachable :: "pool \<Rightarrow> bool" where
  reachable_init: "ThreadPool ncallers n = Inr s \<Longrightarrow> reachable s"
| reachable_step: "reachable s \<Longrightarrow> step a s = Some s' \<Longrightarrow> reachable s'"

text \<open>The thread that takes a transition; a spurious wakeup is taken by no thread.\<close>

fun actor :: "action \<Rightarrow> tid option" where
  "actor (Call c m) = Some (Client c)"
| "actor (Step t) = Some t"
| "actor (Wake t u) = Some t"
| "actor (Spurious u) = None"



definition no_dtor :: "nat \<Rightarrow> pool \<Rightarrow> pool" where
  "no_dtor c s = s\<lparr> clients := (clients s)[c := (clients s ! c)\<lparr> dtor := False \<rparr>] \<rparr>"


subsection \<open>Invariants\<close>

text \<open>The program points at which a thread holds \<^verbatim>\<open>queue_mutex\<close>.\<close>

fun in_next_job :: "wpc \<Rightarrow> bool" where
  "in_next_job W_Pred = True"
| "in_next_job W_Wait = True"
| "in_next_job W_Test = True"
| "in_next_job W_Pop = True"
| "in_next_job W_Inject = True"
| "in_next_job (W_Unlock j) = True"
| "in_next_job _ = False"

fun in_AddJob :: "cpc \<Rightarrow> bool" where
  "in_AddJob (A_Enqueue f) = True"
| "in_AddJob (A_Inc h) = True"
| "in_AddJob (A_Notify h) = True"
| "in_AddJob (A_Unlock h) = True"
| "in_AddJob _ = False"

text \<open>
  Mutual exclusion: a thread at such a point is the owner of the mutex. The invariants are
  stated on the program points of the workers and of the callers.
\<close>

definition mutex_ok :: "wpc list \<Rightarrow> cpc list \<Rightarrow> tid option \<Rightarrow> bool" where
  "mutex_ok ws cs m =
     ((\<forall>i < length ws. in_next_job (ws ! i) \<longrightarrow> m = Some (Worker i)) \<and>
      (\<forall>c < length cs. in_AddJob (cs ! c) \<longrightarrow> m = Some (Client c)))"

abbreviation wpcs :: "pool \<Rightarrow> wpc list" where
  "wpcs s \<equiv> map wpc (threads s)"

abbreviation cpcs :: "pool \<Rightarrow> cpc list" where
  "cpcs s \<equiv> map cpc (clients s)"

definition inv_mutex :: "pool \<Rightarrow> bool" where
  "inv_mutex s = mutex_ok (wpcs s) (cpcs s) (queue_mutex s)"

text \<open>
  The counter: \<open>jobs_left\<close> counts the closures in the queue and the closures that a worker
  has taken (or made up) and not yet accounted for with \<^verbatim>\<open>--jobs_left\<close>, less the closure
  that \<^verbatim>\<open>AddJob\<close> has appended and not yet counted.
\<close>

fun holding :: "wpc \<Rightarrow> bool" where
  "holding (W_Unlock j) = True"
| "holding (W_Call j) = True"
| "holding (W_Exec h f) = True"
| "holding W_Dec = True"
| "holding _ = False"

fun is_A_Inc :: "cpc \<Rightarrow> bool" where
  "is_A_Inc (A_Inc h) = True"
| "is_A_Inc _ = False"

definition cnt :: "('a \<Rightarrow> bool) \<Rightarrow> 'a list \<Rightarrow> int" where
  "cnt P xs = int (length (filter P xs))"

definition count_ok :: "wpc list \<Rightarrow> cpc list \<Rightarrow> job list \<Rightarrow> int \<Rightarrow> bool" where
  "count_ok ws cs q n =
     (n + cnt is_A_Inc cs = int (length q) + cnt holding ws \<and> cnt is_A_Inc cs \<le> int (length q))"

definition inv_count :: "pool \<Rightarrow> bool" where
  "inv_count s = count_ok (wpcs s) (cpcs s) (queue s) (jobs_left s)"

text \<open>
  The counter and the jobs. A job is accepted when \<^verbatim>\<open>AddJob\<close> appends it and counted one
  transition later, at \<^verbatim>\<open>++jobs_left\<close>; it is completed when its call returns and
  discounted one transition later, at \<^verbatim>\<open>--jobs_left\<close>. So \<open>jobs_left\<close> is the number of
  jobs accepted and made up, less the jobs completed, less the callers between the two
  transitions of \<^verbatim>\<open>AddJob\<close>, plus the workers between the two transitions of \<^verbatim>\<open>Task\<close>.
\<close>

fun is_W_Dec :: "wpc \<Rightarrow> bool" where
  "is_W_Dec W_Dec = True"
| "is_W_Dec _ = False"

definition tally_ok :: "wpc list \<Rightarrow> cpc list \<Rightarrow> int \<Rightarrow> nat \<Rightarrow> nat \<Rightarrow> nat \<Rightarrow> bool" where
  "tally_ok ws cs n a i d =
     (n + cnt is_A_Inc cs = int a + int i - int d + cnt is_W_Dec ws)"

text \<open>
  The three numbers in the logs: the jobs accepted are the closures appended; the jobs
  completed are the packaged tasks whose end is logged and the empty jobs made up, less the
  empty jobs that a worker has not called yet.
\<close>

fun is_Finish :: "event \<Rightarrow> bool" where
  "is_Finish (Finish h) = True"
| "is_Finish (Start h) = False"

fun noop_in_hand :: "wpc \<Rightarrow> bool" where
  "noop_in_hand (W_Unlock j) = (j = Noop)"
| "noop_in_hand (W_Call j) = (j = Noop)"
| "noop_in_hand _ = False"

definition logs_ok ::
  "wpc list \<Rightarrow> job list \<Rightarrow> job list \<Rightarrow> event list \<Rightarrow> nat \<Rightarrow> nat \<Rightarrow> nat \<Rightarrow> bool" where
  "logs_ok ws q sub ev a i d =
     (Noop \<notin> set q \<and> a = length sub \<and>
      int d + cnt noop_in_hand ws = cnt is_Finish ev + int i)"

definition inv_ghost :: "pool \<Rightarrow> bool" where
  "inv_ghost s =
     (tally_ok (wpcs s) (cpcs s) (jobs_left s) (accepted s) (injected s) (completed s) \<and>
      logs_ok (wpcs s) (queue s) (submitted s) (events s)
        (accepted s) (injected s) (completed s))"

text \<open>
  An execution with one caller and one worker: the caller submits a job that returns 7, and
  the worker takes it from the queue and starts it.
\<close>

definition submit_and_take :: "action list" where
  "submit_and_take =
     [Call 0 (AddJob (Returns 7)), Step (Client 0), Step (Client 0), Step (Client 0),
      Step (Client 0), Step (Client 0),
      Step (Worker 0), Step (Worker 0), Step (Worker 0), Step (Worker 0), Step (Worker 0),
      Step (Worker 0), Step (Worker 0)]"

definition job_started :: pool where
  "job_started =
     \<lparr> threads = [\<lparr> wpc = W_Exec 0 (Returns 7), joinable = True \<rparr>], queue = [],
       jobs_left = 1, bailout = False, finished = False,
       queue_mutex = None, wait_mutex = None, threadcount = 1,
       futures = [Pending],
       clients = [\<lparr> cpc = C_Idle, dtor = False, futs = [0] \<rparr>], ended = None,
       submitted = [Packaged 0 (Returns 7)],
       dequeued = [Packaged 0 (Returns 7)], events = [Start 0],
       accepted = 1, injected = 0, completed = 0 \<rparr>"

text \<open>
  The execution \<open>submit_and_take\<close> and one more transition of the worker: the job has
  returned, and the worker is at \<^verbatim>\<open>--jobs_left\<close>.
\<close>

definition job_returned :: pool where
  "job_returned =
     \<lparr> threads = [\<lparr> wpc = W_Dec, joinable = True \<rparr>], queue = [],
       jobs_left = 1, bailout = False, finished = False,
       queue_mutex = None, wait_mutex = None, threadcount = 1,
       futures = [Value 7],
       clients = [\<lparr> cpc = C_Idle, dtor = False, futs = [0] \<rparr>], ended = None,
       submitted = [Packaged 0 (Returns 7)],
       dequeued = [Packaged 0 (Returns 7)], events = [Start 0, Finish 0],
       accepted = 1, injected = 0, completed = 1 \<rparr>"

text \<open>
  Joining: a thread that is no longer joinable has been joined, so it has left \<^verbatim>\<open>Task\<close>;
  the loop of \<^verbatim>\<open>JoinAll\<close> at element \<open>i\<close> has every element before \<open>i\<close> joined; once
  \<open>finished\<close> is set every element is joined.
\<close>

definition joined_prefix :: "worker list \<Rightarrow> nat \<Rightarrow> bool" where
  "joined_prefix ts k = (\<forall>j < length ts. j < k \<longrightarrow> \<not> joinable (ts ! j))"

fun join_progress :: "nat \<Rightarrow> cpc \<Rightarrow> nat" where
  "join_progress n (J_Check w i) = i"
| "join_progress n (J_JoinWait w i) = i"
| "join_progress n (J_Fin w) = n"
| "join_progress n _ = 0"

definition join_ok :: "worker list \<Rightarrow> cpc list \<Rightarrow> bool \<Rightarrow> bool" where
  "join_ok ts cs fin =
     ((\<forall>i < length ts. \<not> joinable (ts ! i) \<longrightarrow> wpc (ts ! i) = W_Exit) \<and>
      (\<forall>c < length cs. joined_prefix ts (join_progress (length ts) (cs ! c))) \<and>
      (fin \<longrightarrow> joined_prefix ts (length ts)))"

definition inv_join :: "pool \<Rightarrow> bool" where
  "inv_join s =
     (join_ok (threads s) (cpcs s) (finished s) \<and> (ended s = Some Destroyed \<longrightarrow> finished s))"

text \<open>
  An execution with one caller and one worker: the caller runs \<^verbatim>\<open>JoinAll(false)\<close> to its
  end, and the worker leaves \<^verbatim>\<open>Task\<close> at its first test of \<^verbatim>\<open>bailout\<close>.
\<close>

definition shutdown_now :: "action list" where
  "shutdown_now =
     [Call 0 (JoinAll False), Step (Client 0), Step (Client 0), Step (Client 0),
      Step (Client 0), Step (Worker 0), Step (Client 0), Step (Client 0), Step (Client 0)]"

definition after_shutdown :: pool where
  "after_shutdown =
     \<lparr> threads = [\<lparr> wpc = W_Exit, joinable = False \<rparr>], queue = [],
       jobs_left = 0, bailout = True, finished = True,
       queue_mutex = None, wait_mutex = None, threadcount = 1,
       futures = [],
       clients = [\<lparr> cpc = C_Idle, dtor = False, futs = [] \<rparr>], ended = None,
       submitted = [], dequeued = [], events = [],
       accepted = 0, injected = 0, completed = 0 \<rparr>"

text \<open>
  The program points of \<^verbatim>\<open>WaitAll\<close>, called by \<^verbatim>\<open>JoinAll\<close>, at which the caller has not
  yet read \<open>jobs_left\<close> as zero.
\<close>

fun drain_waiting :: "cpc \<Rightarrow> bool" where
  "drain_waiting (WA_Test k) = k"
| "drain_waiting (WA_Lock k) = k"
| "drain_waiting (WA_Pred k) = k"
| "drain_waiting (WA_Wait k) = k"
| "drain_waiting (WA_Blocked k) = k"
| "drain_waiting (WA_Woken k) = k"
| "drain_waiting _ = False"

text \<open>
  An execution with one caller and one worker: the caller submits a job and calls
  \<^verbatim>\<open>JoinAll(true)\<close>, which reaches the predicate of the wait in \<^verbatim>\<open>WaitAll\<close> while the job is
  still in the queue.
\<close>

definition draining_trace :: "action list" where
  "draining_trace =
     [Call 0 (AddJob (Returns 7)), Step (Client 0), Step (Client 0), Step (Client 0),
      Step (Client 0), Step (Client 0),
      Call 0 (JoinAll True), Step (Client 0), Step (Client 0), Step (Client 0)]"

definition draining :: pool where
  "draining =
     \<lparr> threads = [\<lparr> wpc = W_Loop, joinable = True \<rparr>],
       queue = [Packaged 0 (Returns 7)], jobs_left = 1, bailout = False,
       finished = False, queue_mutex = None, wait_mutex = Some (Client 0),
       threadcount = 1, futures = [Pending],
       clients = [\<lparr> cpc = WA_Pred True, dtor = False, futs = [0] \<rparr>],
       ended = None, submitted = [Packaged 0 (Returns 7)], dequeued = [],
       events = [], accepted = 1, injected = 0, completed = 0 \<rparr>"

text \<open>The execution \<open>shutdown_now\<close> before its last transition.\<close>

definition joining_trace :: "action list" where
  "joining_trace =
     [Call 0 (JoinAll False), Step (Client 0), Step (Client 0), Step (Client 0),
      Step (Client 0), Step (Worker 0), Step (Client 0), Step (Client 0)]"

definition joined :: pool where
  "joined =
     \<lparr> threads = [\<lparr> wpc = W_Exit, joinable = False \<rparr>], queue = [],
       jobs_left = 0, bailout = True, finished = False, queue_mutex = None,
       wait_mutex = None, threadcount = 1, futures = [],
       clients = [\<lparr> cpc = J_Fin False, dtor = False, futs = [] \<rparr>],
       ended = None, submitted = [], dequeued = [], events = [],
       accepted = 0, injected = 0, completed = 0 \<rparr>"


definition destroy_trace :: "action list" where
  "destroy_trace =
     [Call 0 Destroy, Step (Client 0), Step (Client 0), Step (Client 0), Step (Client 0),
      Step (Client 0), Step (Worker 0), Step (Client 0), Step (Client 0), Step (Client 0)]"

definition destroyed :: pool where
  "destroyed =
     \<lparr> threads = [\<lparr> wpc = W_Exit, joinable = False \<rparr>], queue = [],
       jobs_left = 0, bailout = True, finished = True, queue_mutex = None,
       wait_mutex = None, threadcount = 1, futures = [],
       clients = [\<lparr> cpc = C_Destroyed, dtor = True, futs = [] \<rparr>],
       ended = Some Destroyed, submitted = [], dequeued = [], events = [],
       accepted = 0, injected = 0, completed = 0 \<rparr>"

text \<open>The closure of shared state \<open>h\<close>.\<close>

fun queued :: "nat \<Rightarrow> job \<Rightarrow> bool" where
  "queued h (Packaged k f) = (k = h)"
| "queued h Noop = False"

text \<open>
  When every worker has left \<^verbatim>\<open>Task\<close>, an execution to \<open>s'\<close> takes nothing from the queue
  and starts and ends no job. It leaves every shared state as it is, unless it ends with
  the destruction of the object: then the shared states of the closures in the queue that
  were pending hold \<^verbatim>\<open>broken_promise\<close>.
\<close>

definition all_exited :: "worker list \<Rightarrow> bool" where
  "all_exited ts = (\<forall>i < length ts. wpc (ts ! i) = W_Exit)"

definition quiet :: "pool \<Rightarrow> pool \<Rightarrow> bool" where
  "quiet s s' =
     (all_exited (threads s') \<and> dequeued s' = dequeued s \<and> events s' = events s \<and>
      take (length (queue s)) (queue s') = queue s \<and>
      length (futures s) \<le> length (futures s') \<and>
      (\<forall>h < length (futures s).
         futures s' ! h =
           (if ended s' = Some Destroyed \<and> futures s ! h = Pending \<and> 0 < cnt (queued h) (queue s')
            then Broken_promise else futures s ! h)))"

text \<open>
  An execution with one caller and no worker left: the caller submits a job after
  \<^verbatim>\<open>JoinAll(false)\<close> has completed.
\<close>

definition submit_trace :: "action list" where
  "submit_trace =
     [Call 0 (AddJob (Returns 7)), Step (Client 0), Step (Client 0), Step (Client 0),
      Step (Client 0), Step (Client 0)]"

definition submitted_late :: pool where
  "submitted_late =
     \<lparr> threads = [\<lparr> wpc = W_Exit, joinable = False \<rparr>],
       queue = [Packaged 0 (Returns 7)], jobs_left = 1, bailout = True, finished = True,
       queue_mutex = None, wait_mutex = None, threadcount = 1,
       futures = [Pending],
       clients = [\<lparr> cpc = C_Idle, dtor = False, futs = [0] \<rparr>], ended = None,
       submitted = [Packaged 0 (Returns 7)], dequeued = [], events = [],
       accepted = 1, injected = 0, completed = 0 \<rparr>"

text \<open>
  The same execution, followed by the destructor: \<^verbatim>\<open>JoinAll\<close> finds \<open>finished\<close> set and
  returns, and the queue is destroyed with the job in it.
\<close>

definition abandoned :: pool where
  "abandoned =
     \<lparr> threads = [\<lparr> wpc = W_Exit, joinable = False \<rparr>],
       queue = [Packaged 0 (Returns 7)], jobs_left = 1, bailout = True, finished = True,
       queue_mutex = None, wait_mutex = None, threadcount = 1,
       futures = [Broken_promise],
       clients = [\<lparr> cpc = C_Destroyed, dtor = True, futs = [0] \<rparr>],
       ended = Some Destroyed,
       submitted = [Packaged 0 (Returns 7)], dequeued = [], events = [],
       accepted = 1, injected = 0, completed = 0 \<rparr>"

text \<open>
  The program points of \<^verbatim>\<open>next_job\<close> from the test \<^verbatim>\<open>if( !bailout )\<close> that reads the flag as
  set (the first argument is the flag) to the return of the empty job.
\<close>

fun bailing :: "bool \<Rightarrow> wpc \<Rightarrow> bool" where
  "bailing b W_Test = b"
| "bailing b W_Inject = True"
| "bailing b (W_Unlock Noop) = True"
| "bailing b _ = False"

text \<open>
  An execution with one caller and one worker: the caller submits a job, the worker passes
  the wait of \<^verbatim>\<open>next_job\<close> on the non-empty queue, and then the caller runs
  \<^verbatim>\<open>JoinAll(false)\<close> up to \<^verbatim>\<open>bailout = true\<close>, so that the worker's test \<^verbatim>\<open>if( !bailout )\<close>
  reads the flag as set while the job is in the queue.
\<close>

definition bailing_trace :: "action list" where
  "bailing_trace =
     [Call 0 (AddJob (Returns 7)), Step (Client 0), Step (Client 0), Step (Client 0),
      Step (Client 0), Step (Client 0),
      Step (Worker 0), Step (Worker 0), Step (Worker 0),
      Call 0 (JoinAll False), Step (Client 0), Step (Client 0)]"

definition bailing_out :: pool where
  "bailing_out =
     \<lparr> threads = [\<lparr> wpc = W_Test, joinable = True \<rparr>],
       queue = [Packaged 0 (Returns 7)], jobs_left = 1, bailout = True,
       finished = False, queue_mutex = Some (Worker 0), wait_mutex = None,
       threadcount = 1, futures = [Pending],
       clients = [\<lparr> cpc = J_NotifyAll False, dtor = False, futs = [0] \<rparr>],
       ended = None, submitted = [Packaged 0 (Returns 7)], dequeued = [],
       events = [], accepted = 1, injected = 0, completed = 0 \<rparr>"

text \<open>
  The packaged tasks: the closure of shared state \<open>h\<close> is in the queue or in the hands of a
  worker at most once, and as long as it is, the shared state \<open>h\<close> exists and is pending.
\<close>

fun runs :: "nat \<Rightarrow> wpc \<Rightarrow> bool" where
  "runs h (W_Unlock j) = queued h j"
| "runs h (W_Call j) = queued h j"
| "runs h (W_Exec k f) = (k = h)"
| "runs h _ = False"

definition fut_ok :: "wpc list \<Rightarrow> job list \<Rightarrow> slot list \<Rightarrow> bool" where
  "fut_ok ws q fs =
     (\<forall>h. cnt (runs h) ws + cnt (queued h) q \<le> 1 \<and>
          (0 < cnt (runs h) ws + cnt (queued h) q \<longrightarrow> h < length fs \<and> fs ! h = Pending))"

definition inv_fut :: "pool \<Rightarrow> bool" where
  "inv_fut s = (ended s = Some Destroyed \<or> fut_ok (wpcs s) (queue s) (futures s))"

text \<open>
  An execution with one caller and one worker: the caller submits a job that throws, and the
  worker takes it from the queue and starts it.
\<close>

definition failing_trace :: "action list" where
  "failing_trace =
     [Call 0 (AddJob (Throws ''boom'')), Step (Client 0), Step (Client 0), Step (Client 0),
      Step (Client 0), Step (Client 0),
      Step (Worker 0), Step (Worker 0), Step (Worker 0), Step (Worker 0), Step (Worker 0),
      Step (Worker 0), Step (Worker 0)]"

definition job_failing :: pool where
  "job_failing =
     \<lparr> threads = [\<lparr> wpc = W_Exec 0 (Throws ''boom''), joinable = True \<rparr>], queue = [],
       jobs_left = 1, bailout = False, finished = False,
       queue_mutex = None, wait_mutex = None, threadcount = 1,
       futures = [Pending],
       clients = [\<lparr> cpc = C_Idle, dtor = False, futs = [0] \<rparr>], ended = None,
       submitted = [Packaged 0 (Throws ''boom'')],
       dequeued = [Packaged 0 (Throws ''boom'')], events = [Start 0],
       accepted = 1, injected = 0, completed = 0 \<rparr>"

text \<open>
  An execution with one caller and one worker in which the wakeup of \<^verbatim>\<open>WaitAll\<close> is lost.
  The caller submits a job and calls \<^verbatim>\<open>WaitAll\<close>, which finds \<open>jobs_left = 1\<close>, locks
  \<^verbatim>\<open>wait_mutex\<close> and evaluates the predicate \<^verbatim>\<open>jobs_left == 0\<close> to false. Before it blocks, the
  worker takes the job, runs it, executes \<^verbatim>\<open>--jobs_left\<close> and \<^verbatim>\<open>wait_var.notify_one()\<close>, which
  finds no thread to unblock. Then the caller blocks on \<^verbatim>\<open>wait_var\<close>, and the worker, back
  in \<^verbatim>\<open>next_job\<close> with an empty queue, blocks on \<^verbatim>\<open>job_available_var\<close>.
\<close>

definition lost_wakeup_trace :: "action list" where
  "lost_wakeup_trace =
     [Call 0 (AddJob (Returns 7)), Step (Client 0), Step (Client 0), Step (Client 0),
      Step (Client 0), Step (Client 0),
      Call 0 WaitAll, Step (Client 0), Step (Client 0), Step (Client 0),
      Step (Worker 0), Step (Worker 0), Step (Worker 0), Step (Worker 0), Step (Worker 0),
      Step (Worker 0), Step (Worker 0), Step (Worker 0), Step (Worker 0), Step (Worker 0),
      Step (Client 0),
      Step (Worker 0), Step (Worker 0), Step (Worker 0), Step (Worker 0)]"

definition stuck :: pool where
  "stuck =
     \<lparr> threads = [\<lparr> wpc = W_Blocked, joinable = True \<rparr>], queue = [],
       jobs_left = 0, bailout = False, finished = False,
       queue_mutex = None, wait_mutex = None, threadcount = 1,
       futures = [Value 7],
       clients = [\<lparr> cpc = WA_Blocked False, dtor = False, futs = [0] \<rparr>],
       ended = None, submitted = [Packaged 0 (Returns 7)],
       dequeued = [Packaged 0 (Returns 7)], events = [Start 0, Finish 0],
       accepted = 1, injected = 0, completed = 1 \<rparr>"

text \<open>
  An execution with one caller and one worker in which the wakeup of \<^verbatim>\<open>JoinAll\<close> is lost.
  The worker enters \<^verbatim>\<open>next_job\<close>, locks \<^verbatim>\<open>queue_mutex\<close> and evaluates the predicate
  \<^verbatim>\<open>queue.size() || bailout\<close> to false. Before it blocks, the caller runs \<^verbatim>\<open>JoinAll(w)\<close>
  up to the loop over the threads: with \<open>w\<close> set, \<^verbatim>\<open>WaitAll\<close> finds \<open>jobs_left = 0\<close> and
  returns at once; then \<^verbatim>\<open>bailout = true\<close>, and \<^verbatim>\<open>job_available_var.notify_all()\<close>, which
  finds no thread to unblock. Then the worker blocks on \<^verbatim>\<open>job_available_var\<close>, and the
  caller reaches \<^verbatim>\<open>x.join()\<close>.
\<close>

definition hang_trace :: "bool \<Rightarrow> action list" where
  "hang_trace w =
     [Step (Worker 0), Step (Worker 0), Step (Worker 0), Call 0 (JoinAll w)] @
     (if w then [Step (Client 0), Step (Client 0)] else [Step (Client 0)]) @
     [Step (Client 0), Step (Client 0), Step (Worker 0), Step (Client 0)]"

definition hung :: "bool \<Rightarrow> pool" where
  "hung w =
     \<lparr> threads = [\<lparr> wpc = W_Blocked, joinable = True \<rparr>], queue = [],
       jobs_left = 0, bailout = True, finished = False,
       queue_mutex = None, wait_mutex = None, threadcount = 1,
       futures = [],
       clients = [\<lparr> cpc = J_JoinWait w 0, dtor = False, futs = [] \<rparr>],
       ended = None, submitted = [], dequeued = [], events = [],
       accepted = 0, injected = 0, completed = 0 \<rparr>"

text \<open>
  Order. The queue is first in, first out: the closures appended so far are the closures
  taken so far followed by the queue; the closure appended as number \<open>k\<close> is the one of
  shared state \<open>k\<close>, and the empty closure is never appended.
\<close>

fun job_handle :: "job \<Rightarrow> nat" where
  "job_handle (Packaged h f) = h"
| "job_handle Noop = 0"

definition fifo_ok :: "job list \<Rightarrow> job list \<Rightarrow> job list \<Rightarrow> slot list \<Rightarrow> bool" where
  "fifo_ok sub deq q fs =
     (sub = deq @ q \<and> map job_handle sub = [0..<length fs] \<and> Noop \<notin> set sub)"

definition inv_fifo :: "pool \<Rightarrow> bool" where
  "inv_fifo s = fifo_ok (submitted s) (dequeued s) (queue s) (futures s)"

text \<open>
  The futures issued to a caller, oldest first: those that its calls of \<^verbatim>\<open>AddJob\<close> have
  returned, and the one of the call it is in. Their numbers increase.
\<close>

fun issuing :: "cpc \<Rightarrow> nat list" where
  "issuing (A_Inc h) = [h]"
| "issuing (A_Notify h) = [h]"
| "issuing (A_Unlock h) = [h]"
| "issuing _ = []"

definition issued :: "client \<Rightarrow> nat list" where
  "issued x = futs x @ issuing (cpc x)"

definition futs_ok :: "client list \<Rightarrow> nat \<Rightarrow> bool" where
  "futs_ok cs n =
     (\<forall>c < length cs. sorted_wrt (<) (issued (cs ! c)) \<and> (\<forall>h \<in> set (issued (cs ! c)). h < n))"

definition inv_futs :: "pool \<Rightarrow> bool" where
  "inv_futs s = futs_ok (clients s) (length (futures s))"

text \<open>
  With a single worker the jobs run one after the other, in the order in which they were
  taken: the log of starts and ends, followed by the events that the worker still owes for
  the job in its hands, is the list of start and end of every job taken, in that order.
\<close>

fun bracket :: "nat list \<Rightarrow> event list" where
  "bracket [] = []"
| "bracket (h # hs) = Start h # Finish h # bracket hs"

fun owed :: "wpc \<Rightarrow> event list" where
  "owed (W_Unlock (Packaged h f)) = [Start h, Finish h]"
| "owed (W_Call (Packaged h f)) = [Start h, Finish h]"
| "owed (W_Exec h f) = [Finish h]"
| "owed _ = []"

definition serial_ok :: "wpc list \<Rightarrow> job list \<Rightarrow> event list \<Rightarrow> bool" where
  "serial_ok ws deq ev =
     (length ws = 1 \<longrightarrow> ev @ owed (ws ! 0) = bracket (map job_handle deq))"

definition inv_serial :: "pool \<Rightarrow> bool" where
  "inv_serial s = serial_ok (wpcs s) (dequeued s) (events s)"

text \<open>
  An execution with one caller and one worker: the caller submits two jobs, and the worker
  takes and runs the first, then takes and starts the second.
\<close>

definition two_jobs_trace :: "action list" where
  "two_jobs_trace =
     [Call 0 (AddJob (Returns 1)), Step (Client 0), Step (Client 0), Step (Client 0),
      Step (Client 0), Step (Client 0),
      Call 0 (AddJob (Returns 2)), Step (Client 0), Step (Client 0), Step (Client 0),
      Step (Client 0), Step (Client 0),
      Step (Worker 0), Step (Worker 0), Step (Worker 0), Step (Worker 0), Step (Worker 0),
      Step (Worker 0), Step (Worker 0), Step (Worker 0), Step (Worker 0), Step (Worker 0),
      Step (Worker 0), Step (Worker 0), Step (Worker 0), Step (Worker 0), Step (Worker 0),
      Step (Worker 0), Step (Worker 0)]"

definition two_jobs :: pool where
  "two_jobs =
     \<lparr> threads = [\<lparr> wpc = W_Exec 1 (Returns 2), joinable = True \<rparr>],
       queue = [], jobs_left = 1, bailout = False, finished = False,
       queue_mutex = None, wait_mutex = None, threadcount = 1,
       futures = [Value 1, Pending],
       clients = [\<lparr> cpc = C_Idle, dtor = False, futs = [0, 1] \<rparr>],
       ended = None,
       submitted = [Packaged 0 (Returns 1), Packaged 1 (Returns 2)],
       dequeued = [Packaged 0 (Returns 1), Packaged 1 (Returns 2)],
       events = [Start 0, Finish 0, Start 1], accepted = 2,
       injected = 0, completed = 1 \<rparr>"

text \<open>
  \<^verbatim>\<open>queue.front()\<close> is defined: a worker that has passed the wait of \<^verbatim>\<open>next_job\<close> finds the
  queue non-empty or the flag set, and a worker at \<^verbatim>\<open>queue.front()\<close> finds the queue
  non-empty.
\<close>

definition pop_ok :: "wpc list \<Rightarrow> job list \<Rightarrow> bool \<Rightarrow> bool" where
  "pop_ok ws q b =
     (\<forall>i < length ws. (ws ! i = W_Test \<longrightarrow> q \<noteq> [] \<or> b) \<and> (ws ! i = W_Pop \<longrightarrow> q \<noteq> []))"

definition inv_pop :: "pool \<Rightarrow> bool" where
  "inv_pop s = pop_ok (wpcs s) (queue s) (bailout s)"


text \<open>
  The destructor on an idle pool. The state after worker \<open>i\<close>, unblocked with \<open>bailout\<close>
  set, has gone through \<^verbatim>\<open>next_job\<close>, run the empty job and left \<^verbatim>\<open>Task\<close>.
\<close>

definition leave :: "nat \<Rightarrow> pool \<Rightarrow> pool" where
  "leave i s = set_wpc i W_Exit (s\<lparr> injected := injected s + 1, completed := completed s + 1 \<rparr>)"











subsection \<open>The transitions, case by case\<close>

lemma set_wpc_fields [simp]:
  "threads (set_wpc i p s) = (threads s)[i := (threads s ! i)\<lparr> wpc := p \<rparr>]"
  "queue (set_wpc i p s) = queue s"
  "jobs_left (set_wpc i p s) = jobs_left s"
  "bailout (set_wpc i p s) = bailout s"
  "finished (set_wpc i p s) = finished s"
  "queue_mutex (set_wpc i p s) = queue_mutex s"
  "wait_mutex (set_wpc i p s) = wait_mutex s"
  "threadcount (set_wpc i p s) = threadcount s"
  "futures (set_wpc i p s) = futures s"
  "clients (set_wpc i p s) = clients s"
  "ended (set_wpc i p s) = ended s"
  "submitted (set_wpc i p s) = submitted s"
  "dequeued (set_wpc i p s) = dequeued s"
  "events (set_wpc i p s) = events s"
  "accepted (set_wpc i p s) = accepted s"
  "injected (set_wpc i p s) = injected s"
  "completed (set_wpc i p s) = completed s"
  by (simp_all add: set_wpc_def)

lemma set_cpc_fields [simp]:
  "threads (set_cpc c p s) = threads s"
  "queue (set_cpc c p s) = queue s"
  "jobs_left (set_cpc c p s) = jobs_left s"
  "bailout (set_cpc c p s) = bailout s"
  "finished (set_cpc c p s) = finished s"
  "queue_mutex (set_cpc c p s) = queue_mutex s"
  "wait_mutex (set_cpc c p s) = wait_mutex s"
  "threadcount (set_cpc c p s) = threadcount s"
  "futures (set_cpc c p s) = futures s"
  "clients (set_cpc c p s) = (clients s)[c := (clients s ! c)\<lparr> cpc := p \<rparr>]"
  "ended (set_cpc c p s) = ended s"
  "submitted (set_cpc c p s) = submitted s"
  "dequeued (set_cpc c p s) = dequeued s"
  "events (set_cpc c p s) = events s"
  "accepted (set_cpc c p s) = accepted s"
  "injected (set_cpc c p s) = injected s"
  "completed (set_cpc c p s) = completed s"
  by (simp_all add: set_cpc_def)

lemma WaitAll_return_fields [simp]:
  "threads (WaitAll_return c k s) = threads s"
  "queue (WaitAll_return c k s) = queue s"
  "jobs_left (WaitAll_return c k s) = jobs_left s"
  "bailout (WaitAll_return c k s) = bailout s"
  "finished (WaitAll_return c k s) = finished s"
  "queue_mutex (WaitAll_return c k s) = queue_mutex s"
  "wait_mutex (WaitAll_return c k s) = wait_mutex s"
  "threadcount (WaitAll_return c k s) = threadcount s"
  "futures (WaitAll_return c k s) = futures s"
  "clients (WaitAll_return c k s) = (clients s)[c := (clients s ! c)\<lparr> cpc := (if k then J_Bail True else C_Idle) \<rparr>]"
  "ended (WaitAll_return c k s) = ended s"
  "submitted (WaitAll_return c k s) = submitted s"
  "dequeued (WaitAll_return c k s) = dequeued s"
  "events (WaitAll_return c k s) = events s"
  "accepted (WaitAll_return c k s) = accepted s"
  "injected (WaitAll_return c k s) = injected s"
  "completed (WaitAll_return c k s) = completed s"
  by (simp_all add: WaitAll_return_def)

lemma JoinAll_return_fields [simp]:
  "threads (JoinAll_return c s) = threads s"
  "queue (JoinAll_return c s) = queue s"
  "jobs_left (JoinAll_return c s) = jobs_left s"
  "bailout (JoinAll_return c s) = bailout s"
  "finished (JoinAll_return c s) = finished s"
  "queue_mutex (JoinAll_return c s) = queue_mutex s"
  "wait_mutex (JoinAll_return c s) = wait_mutex s"
  "threadcount (JoinAll_return c s) = threadcount s"
  "futures (JoinAll_return c s) =
     (if dtor (clients s ! c) then fold abandon (queue s) (futures s) else futures s)"
  "clients (JoinAll_return c s) = (clients s)[c := (clients s ! c)\<lparr> cpc := (if dtor (clients s ! c) then C_Destroyed else C_Idle) \<rparr>]"
  "ended (JoinAll_return c s) = (if dtor (clients s ! c) then Some Destroyed else ended s)"
  "submitted (JoinAll_return c s) = submitted s"
  "dequeued (JoinAll_return c s) = dequeued s"
  "events (JoinAll_return c s) = events s"
  "accepted (JoinAll_return c s) = accepted s"
  "injected (JoinAll_return c s) = injected s"
  "completed (JoinAll_return c s) = completed s"
  by (simp_all add: JoinAll_return_def end_of_life_def)

lemma initial_pool_fields [simp]:
  "threads (initial_pool nc n) = replicate (unat n) \<lparr> wpc = W_Loop, joinable = True \<rparr>"
  "queue (initial_pool nc n) = []"
  "jobs_left (initial_pool nc n) = 0"
  "bailout (initial_pool nc n) = False"
  "finished (initial_pool nc n) = False"
  "queue_mutex (initial_pool nc n) = None"
  "wait_mutex (initial_pool nc n) = None"
  "threadcount (initial_pool nc n) = n"
  "futures (initial_pool nc n) = []"
  "clients (initial_pool nc n) = replicate nc \<lparr> cpc = C_Idle, dtor = False, futs = [] \<rparr>"
  "ended (initial_pool nc n) = None"
  "submitted (initial_pool nc n) = []"
  "dequeued (initial_pool nc n) = []"
  "events (initial_pool nc n) = []"
  "accepted (initial_pool nc n) = 0"
  "injected (initial_pool nc n) = 0"
  "completed (initial_pool nc n) = 0"
  by (simp_all add: initial_pool_def)

lemma ThreadPool_Inr:
  assumes "ThreadPool nc n = Inr s"
  shows "s = initial_pool nc n"
proof (cases "vector_max_size < (scast n :: 64 word)")
  case True
  with assms show ?thesis by (simp add: ThreadPool_def)
next
  case False
  with assms show ?thesis by (simp add: ThreadPool_def)
qed

lemma worker_step_cases [consumes 1, case_names Loop Lock Pred Wait Woken Test Pop_empty Pop Inject Unlock Call_noop Call Exec Exec_twice Dec Notify]:
  assumes "worker_step i s = Some s'"
  obtains
    (Loop) "i < length (threads s)" "wpc (threads s ! i) = W_Loop"
      "s' = set_wpc i (if bailout s then W_Exit else W_Lock) s"
  | (Lock) "i < length (threads s)" "wpc (threads s ! i) = W_Lock" "queue_mutex s = None"
      "s' = set_wpc i W_Pred (s\<lparr> queue_mutex := Some (Worker i) \<rparr>)"
  | (Pred) "i < length (threads s)" "wpc (threads s ! i) = W_Pred"
      "s' = set_wpc i (if queue s \<noteq> [] \<or> bailout s then W_Test else W_Wait) s"
  | (Wait) "i < length (threads s)" "wpc (threads s ! i) = W_Wait"
      "s' = set_wpc i W_Blocked (s\<lparr> queue_mutex := None \<rparr>)"
  | (Woken) "i < length (threads s)" "wpc (threads s ! i) = W_Woken" "queue_mutex s = None"
      "s' = set_wpc i W_Pred (s\<lparr> queue_mutex := Some (Worker i) \<rparr>)"
  | (Test) "i < length (threads s)" "wpc (threads s ! i) = W_Test"
      "s' = set_wpc i (if \<not> bailout s then W_Pop else W_Inject) s"
  | (Pop_empty) "i < length (threads s)" "wpc (threads s ! i) = W_Pop" "queue s = []"
      "s' = s\<lparr> ended := Some Pop_empty \<rparr>"
  | (Pop) j q where "i < length (threads s)" "wpc (threads s ! i) = W_Pop" "queue s = j # q"
      "s' = set_wpc i (W_Unlock j) (s\<lparr> queue := q, dequeued := dequeued s @ [j] \<rparr>)"
  | (Inject) "i < length (threads s)" "wpc (threads s ! i) = W_Inject"
      "s' = set_wpc i (W_Unlock Noop) (s\<lparr> jobs_left := jobs_left s + 1, injected := injected s + 1 \<rparr>)"
  | (Unlock) j where "i < length (threads s)" "wpc (threads s ! i) = W_Unlock j"
      "s' = set_wpc i (W_Call j) (s\<lparr> queue_mutex := None \<rparr>)"
  | (Call_noop) "i < length (threads s)" "wpc (threads s ! i) = W_Call Noop"
      "s' = set_wpc i W_Dec (s\<lparr> completed := completed s + 1 \<rparr>)"
  | (Call) h f where "i < length (threads s)" "wpc (threads s ! i) = W_Call (Packaged h f)"
      "s' = set_wpc i (W_Exec h f) (s\<lparr> events := events s @ [Start h] \<rparr>)"
  | (Exec) h f where "i < length (threads s)" "wpc (threads s ! i) = W_Exec h f"
      "h < length (futures s)" "futures s ! h = Pending"
      "s' = set_wpc i W_Dec (s\<lparr> futures := (futures s)[h := packaged_task_call f],
                           events := events s @ [Finish h],
                           completed := completed s + 1 \<rparr>)"
  | (Exec_twice) h f where "i < length (threads s)" "wpc (threads s ! i) = W_Exec h f"
      "\<not> (h < length (futures s) \<and> futures s ! h = Pending)"
      "s' = s\<lparr> ended := Some Terminate \<rparr>"
  | (Dec) "i < length (threads s)" "wpc (threads s ! i) = W_Dec"
      "s' = set_wpc i W_Notify (s\<lparr> jobs_left := jobs_left s - 1 \<rparr>)"
  | (Notify) "i < length (threads s)" "wpc (threads s ! i) = W_Notify"
      "\<not> list_ex idle_waiting (clients s)"
      "s' = set_wpc i W_Loop s"
proof (cases "i < length (threads s)")
  case False
  then show ?thesis using assms by (simp add: worker_step_def)
next
  case True
  show ?thesis
  proof (cases "wpc (threads s ! i)")
    case W_Loop then show ?thesis using assms True Loop by (simp add: worker_step_def)
  next
    case W_Lock then show ?thesis using assms True Lock by (simp add: worker_step_def split: if_splits)
  next
    case W_Pred then show ?thesis using assms True Pred by (simp add: worker_step_def)
  next
    case W_Wait then show ?thesis using assms True Wait by (simp add: worker_step_def)
  next
    case W_Blocked then show ?thesis using assms True by (simp add: worker_step_def)
  next
    case W_Woken then show ?thesis using assms True Woken by (simp add: worker_step_def split: if_splits)
  next
    case W_Test then show ?thesis using assms True Test by (simp add: worker_step_def)
  next
    case W_Pop then show ?thesis using assms True Pop_empty Pop
      by (cases "queue s") (simp_all add: worker_step_def)
  next
    case W_Inject then show ?thesis using assms True Inject by (simp add: worker_step_def)
  next
    case (W_Unlock j) then show ?thesis using assms True Unlock by (simp add: worker_step_def)
  next
    case (W_Call j) then show ?thesis using assms True Call_noop Call
      by (cases j) (simp_all add: worker_step_def)
  next
    case (W_Exec h f) then show ?thesis using assms True Exec[of h f] Exec_twice[of h f]
      by (cases "h < length (futures s) \<and> futures s ! h = Pending") (simp_all add: worker_step_def)
  next
    case W_Dec then show ?thesis using assms True Dec by (simp add: worker_step_def)
  next
    case W_Notify then show ?thesis using assms True Notify by (simp add: worker_step_def split: if_splits)
  next
    case W_Exit then show ?thesis using assms True by (simp add: worker_step_def)
  qed
qed

lemma client_step_cases [consumes 1, case_names A_Lock A_Enqueue A_Inc A_Notify A_Unlock
    J_Entry J_Entry_finished J_Bail J_NotifyAll J_Check J_Check_end J_JoinWait J_JoinWait_dtor
    J_JoinWait_throw J_Fin WA_Test WA_Test_idle WA_Lock WA_Pred WA_Wait WA_Woken WA_Unlock]:
  assumes "client_step c s = Some s'"
  obtains
    (A_Lock) f where "c < length (clients s)" "cpc (clients s ! c) = A_Lock f"
      "queue_mutex s = None"
      "s' = set_cpc c (A_Enqueue f) (s\<lparr> queue_mutex := Some (Client c) \<rparr>)"
  | (A_Enqueue) f where "c < length (clients s)" "cpc (clients s ! c) = A_Enqueue f"
      "s' = set_cpc c (A_Inc (length (futures s)))
                 (s\<lparr> futures := futures s @ [Pending],
                     queue := queue s @ [Packaged (length (futures s)) f],
                     submitted := submitted s @ [Packaged (length (futures s)) f],
                     accepted := accepted s + 1 \<rparr>)"
  | (A_Inc) h where "c < length (clients s)" "cpc (clients s ! c) = A_Inc h"
      "s' = set_cpc c (A_Notify h) (s\<lparr> jobs_left := jobs_left s + 1 \<rparr>)"
  | (A_Notify) h where "c < length (clients s)" "cpc (clients s ! c) = A_Notify h"
      "\<not> list_ex job_waiting (threads s)"
      "s' = set_cpc c (A_Unlock h) s"
  | (A_Unlock) h where "c < length (clients s)" "cpc (clients s ! c) = A_Unlock h"
      "s' = s\<lparr> queue_mutex := None,
                  clients := (clients s)[c := (clients s ! c)
                     \<lparr> cpc := C_Idle, futs := futs (clients s ! c) @ [h] \<rparr>] \<rparr>"
  | (J_Entry) w where "c < length (clients s)" "cpc (clients s ! c) = J_Entry w"
      "\<not> finished s"
      "s' = set_cpc c (if w then WA_Test True else J_Bail w) s"
  | (J_Entry_finished) w where "c < length (clients s)" "cpc (clients s ! c) = J_Entry w"
      "finished s"
      "s' = JoinAll_return c s"
  | (J_Bail) w where "c < length (clients s)" "cpc (clients s ! c) = J_Bail w"
      "s' = set_cpc c (J_NotifyAll w) (s\<lparr> bailout := True \<rparr>)"
  | (J_NotifyAll) w where "c < length (clients s)" "cpc (clients s ! c) = J_NotifyAll w"
      "s' = set_cpc c (J_Check w 0)
                 (s\<lparr> threads := notify_all (threads s) \<rparr>)"
  | (J_Check) w i where "c < length (clients s)" "cpc (clients s ! c) = J_Check w i"
      "i < length (threads s)"
      "s' = set_cpc c (if joinable (threads s ! i) then J_JoinWait w i
                                else J_Check w (i + 1)) s"
  | (J_Check_end) w i where "c < length (clients s)" "cpc (clients s ! c) = J_Check w i"
      "\<not> i < length (threads s)"
      "s' = set_cpc c (J_Fin w) s"
  | (J_JoinWait) w i where "c < length (clients s)" "cpc (clients s ! c) = J_JoinWait w i"
      "i < length (threads s)" "wpc (threads s ! i) = W_Exit" "joinable (threads s ! i)"
      "s' = set_cpc c (J_Check w (i + 1))
                       (s\<lparr> threads := (threads s)[i := (threads s ! i)\<lparr> joinable := False \<rparr>] \<rparr>)"
  | (J_JoinWait_dtor) w i where "c < length (clients s)" "cpc (clients s ! c) = J_JoinWait w i"
      "i < length (threads s)" "wpc (threads s ! i) = W_Exit" "\<not> joinable (threads s ! i)"
      "dtor (clients s ! c)"
      "s' = s\<lparr> ended := Some Terminate \<rparr>"
  | (J_JoinWait_throw) w i where "c < length (clients s)" "cpc (clients s ! c) = J_JoinWait w i"
      "i < length (threads s)" "wpc (threads s ! i) = W_Exit" "\<not> joinable (threads s ! i)"
      "\<not> dtor (clients s ! c)"
      "s' = set_cpc c C_Threw s"
  | (J_Fin) w where "c < length (clients s)" "cpc (clients s ! c) = J_Fin w"
      "s' = JoinAll_return c (s\<lparr> finished := True \<rparr>)"
  | (WA_Test) k where "c < length (clients s)" "cpc (clients s ! c) = WA_Test k"
      "jobs_left s > 0"
      "s' = set_cpc c (WA_Lock k) s"
  | (WA_Test_idle) k where "c < length (clients s)" "cpc (clients s ! c) = WA_Test k"
      "\<not> jobs_left s > 0"
      "s' = WaitAll_return c k s"
  | (WA_Lock) k where "c < length (clients s)" "cpc (clients s ! c) = WA_Lock k"
      "wait_mutex s = None"
      "s' = set_cpc c (WA_Pred k) (s\<lparr> wait_mutex := Some (Client c) \<rparr>)"
  | (WA_Pred) k where "c < length (clients s)" "cpc (clients s ! c) = WA_Pred k"
      "s' = set_cpc c (if jobs_left s = 0 then WA_Unlock k else WA_Wait k) s"
  | (WA_Wait) k where "c < length (clients s)" "cpc (clients s ! c) = WA_Wait k"
      "s' = set_cpc c (WA_Blocked k) (s\<lparr> wait_mutex := None \<rparr>)"
  | (WA_Woken) k where "c < length (clients s)" "cpc (clients s ! c) = WA_Woken k"
      "wait_mutex s = None"
      "s' = set_cpc c (WA_Pred k) (s\<lparr> wait_mutex := Some (Client c) \<rparr>)"
  | (WA_Unlock) k where "c < length (clients s)" "cpc (clients s ! c) = WA_Unlock k"
      "s' = WaitAll_return c k (s\<lparr> wait_mutex := None \<rparr>)"
proof (cases "c < length (clients s)")
  case False
  then show ?thesis using assms by (simp add: client_step_def)
next
  case True
  show ?thesis
  proof (cases "cpc (clients s ! c)")
    case C_Idle then show ?thesis using assms True by (simp add: client_step_def)
  next
    case (A_Lock f) then show ?thesis using assms True that(1)[of f]
      by (simp add: client_step_def split: if_splits)
  next
    case (A_Enqueue f) then show ?thesis using assms True that(2)[of f]
      by (simp add: client_step_def)
  next
    case (A_Inc h) then show ?thesis using assms True that(3)[of h]
      by (simp add: client_step_def)
  next
    case (A_Notify h) then show ?thesis using assms True that(4)[of h]
      by (simp add: client_step_def split: if_splits)
  next
    case (A_Unlock h) then show ?thesis using assms True that(5)[of h]
      by (simp add: client_step_def)
  next
    case (J_Entry w) then show ?thesis using assms True that(6)[of w] that(7)[of w]
      by (cases "finished s") (simp_all add: client_step_def)
  next
    case (J_Bail w) then show ?thesis using assms True that(8)[of w]
      by (simp add: client_step_def)
  next
    case (J_NotifyAll w) then show ?thesis using assms True that(9)[of w]
      by (simp add: client_step_def)
  next
    case (J_Check w i) then show ?thesis using assms True that(10)[of w i] that(11)[of w i]
      by (cases "i < length (threads s)") (simp_all add: client_step_def)
  next
    case (J_JoinWait w i)
    with assms True have eq:
      "(if length (threads s) \<le> i \<or> wpc (threads s ! i) \<noteq> W_Exit then None
        else if joinable (threads s ! i)
        then Some (set_cpc c (J_Check w (i + 1))
                     (s\<lparr> threads := (threads s)[i := (threads s ! i)\<lparr> joinable := False \<rparr>] \<rparr>))
        else if dtor (clients s ! c) then Some (s\<lparr> ended := Some Terminate \<rparr>)
        else Some (set_cpc c C_Threw s)) = Some s'"
      by (simp add: client_step_def)
    then have i: "i < length (threads s)" "wpc (threads s ! i) = W_Exit"
      by (simp_all split: if_splits)
    show ?thesis
    proof (cases "joinable (threads s ! i)")
      case True
      with eq i have "s' = set_cpc c (J_Check w (i + 1))
                     (s\<lparr> threads := (threads s)[i := (threads s ! i)\<lparr> joinable := False \<rparr>] \<rparr>)"
        by simp
      with that(12)[of w i] \<open>c < length (clients s)\<close> J_JoinWait i True show ?thesis
        by blast
    next
      case False
      show ?thesis
      proof (cases "dtor (clients s ! c)")
        case True
        with eq i False have "s' = s\<lparr> ended := Some Terminate \<rparr>" by simp
        with that(13)[of w i] \<open>c < length (clients s)\<close> J_JoinWait i False True show ?thesis
          by blast
      next
        case nd: False
        with eq i False have "s' = set_cpc c C_Threw s" by simp
        with that(14)[of w i] \<open>c < length (clients s)\<close> J_JoinWait i False nd show ?thesis
          by blast
      qed
    qed
  next
    case (J_Fin w) then show ?thesis using assms True that(15)[of w]
      by (simp add: client_step_def)
  next
    case (WA_Test k) then show ?thesis using assms True that(16)[of k] that(17)[of k]
      by (cases "jobs_left s > 0") (simp_all add: client_step_def)
  next
    case (WA_Lock k) then show ?thesis using assms True that(18)[of k]
      by (simp add: client_step_def split: if_splits)
  next
    case (WA_Pred k) then show ?thesis using assms True that(19)[of k]
      by (simp add: client_step_def)
  next
    case (WA_Wait k) then show ?thesis using assms True that(20)[of k]
      by (simp add: client_step_def)
  next
    case (WA_Blocked k) then show ?thesis using assms True by (simp add: client_step_def)
  next
    case (WA_Woken k) then show ?thesis using assms True that(21)[of k]
      by (simp add: client_step_def split: if_splits)
  next
    case (WA_Unlock k) then show ?thesis using assms True that(22)[of k]
      by (simp add: client_step_def)
  next
    case C_Destroyed then show ?thesis using assms True by (simp add: client_step_def)
  next
    case C_Threw then show ?thesis using assms True by (simp add: client_step_def)
  qed
qed

lemma call_step_cases [consumes 1, case_names AddJob JoinAll WaitAll Destroy]:
  assumes "call_step c m s = Some s'"
  obtains
    (AddJob) f where "c < length (clients s)" "cpc (clients s ! c) = C_Idle" "m = AddJob f"
      "s' = set_cpc c (A_Lock f) s"
  | (JoinAll) w where "c < length (clients s)" "cpc (clients s ! c) = C_Idle" "m = JoinAll w"
      "s' = set_cpc c (J_Entry w) s"
  | (WaitAll) "c < length (clients s)" "cpc (clients s ! c) = C_Idle" "m = WaitAll"
      "s' = set_cpc c (WA_Test False) s"
  | (Destroy) "c < length (clients s)" "cpc (clients s ! c) = C_Idle" "m = Destroy"
      "s' = s\<lparr> clients := (clients s)[c := (clients s ! c)
                    \<lparr> cpc := J_Entry True, dtor := True \<rparr>] \<rparr>"
proof -
  have idle: "c < length (clients s) \<and> cpc (clients s ! c) = C_Idle"
  proof (rule ccontr)
    assume "\<not> (c < length (clients s) \<and> cpc (clients s ! c) = C_Idle)"
    then have "call_step c m s = None" by (simp add: call_step_def not_less)
    with assms show False by simp
  qed
  show ?thesis
  proof (cases m)
    case (AddJob f)
    with assms idle have "s' = set_cpc c (A_Lock f) s" by (simp add: call_step_def)
    with idle AddJob that(1) show ?thesis by blast
  next
    case (JoinAll w)
    with assms idle have "s' = set_cpc c (J_Entry w) s" by (simp add: call_step_def)
    with idle JoinAll that(2) show ?thesis by blast
  next
    case WaitAll
    with assms idle have "s' = set_cpc c (WA_Test False) s" by (simp add: call_step_def)
    with idle WaitAll that(3) show ?thesis by blast
  next
    case Destroy
    with assms idle have "s' = s\<lparr> clients := (clients s)[c := (clients s ! c)
                    \<lparr> cpc := J_Entry True, dtor := True \<rparr>] \<rparr>" by (simp add: call_step_def)
    with idle Destroy that(4) show ?thesis by blast
  qed
qed

lemma wake_step_cases [consumes 1, case_names Wake_worker Wake_client]:
  assumes "wake_step t u s = Some s'"
  obtains
    (Wake_worker) c i h where "t = Client c" "u = Worker i"
      "c < length (clients s)" "i < length (threads s)"
      "cpc (clients s ! c) = A_Notify h" "wpc (threads s ! i) = W_Blocked"
      "s' = set_cpc c (A_Unlock h) (set_wpc i W_Woken s)"
  | (Wake_client) c i k where "t = Worker i" "u = Client c"
      "c < length (clients s)" "i < length (threads s)"
      "wpc (threads s ! i) = W_Notify" "cpc (clients s ! c) = WA_Blocked k"
      "s' = set_wpc i W_Loop (set_cpc c (WA_Woken k) s)"
proof (cases t)
  case tw: (Worker i)
  show ?thesis
  proof (cases u)
    case (Worker j)
    with tw assms show ?thesis by (simp add: wake_step_def)
  next
    case (Client c)
    with tw assms have eq:
      "(if c < length (clients s) \<and> i < length (threads s) \<and> wpc (threads s ! i) = W_Notify
        then (case cpc (clients s ! c) of
                WA_Blocked k \<Rightarrow> Some (set_wpc i W_Loop (set_cpc c (WA_Woken k) s))
              | _ \<Rightarrow> None)
        else None) = Some s'"
      by (simp add: wake_step_def)
    then have g: "c < length (clients s)" "i < length (threads s)" "wpc (threads s ! i) = W_Notify"
      by (simp_all split: if_splits)
    with eq have eq': "(case cpc (clients s ! c) of
                WA_Blocked k \<Rightarrow> Some (set_wpc i W_Loop (set_cpc c (WA_Woken k) s))
              | _ \<Rightarrow> None) = Some s'" by simp
    then obtain k where k: "cpc (clients s ! c) = WA_Blocked k"
      by (cases "cpc (clients s ! c)") simp_all
    with eq' have "s' = set_wpc i W_Loop (set_cpc c (WA_Woken k) s)" by simp
    with tw Client g k that(2) show ?thesis by blast
  qed
next
  case tc: (Client c)
  show ?thesis
  proof (cases u)
    case (Client d)
    with tc assms show ?thesis by (simp add: wake_step_def)
  next
    case (Worker i)
    with tc assms have eq:
      "(if c < length (clients s) \<and> i < length (threads s)
        then (case cpc (clients s ! c) of
                A_Notify h \<Rightarrow>
                  (if job_waiting (threads s ! i)
                   then Some (set_cpc c (A_Unlock h) (set_wpc i W_Woken s))
                   else None)
              | _ \<Rightarrow> None)
        else None) = Some s'"
      by (simp add: wake_step_def)
    then have g: "c < length (clients s)" "i < length (threads s)"
      by (simp_all split: if_splits)
    with eq have eq': "(case cpc (clients s ! c) of
                A_Notify h \<Rightarrow>
                  (if job_waiting (threads s ! i)
                   then Some (set_cpc c (A_Unlock h) (set_wpc i W_Woken s))
                   else None)
              | _ \<Rightarrow> None) = Some s'" by simp
    then obtain h where h: "cpc (clients s ! c) = A_Notify h"
      by (cases "cpc (clients s ! c)") simp_all
    with eq' have eq'': "(if job_waiting (threads s ! i)
                   then Some (set_cpc c (A_Unlock h) (set_wpc i W_Woken s))
                   else None) = Some s'" by simp
    then have b: "wpc (threads s ! i) = W_Blocked"
      by (simp add: job_waiting_def split: if_splits)
    with eq'' have "s' = set_cpc c (A_Unlock h) (set_wpc i W_Woken s)"
      by (simp add: job_waiting_def)
    with tc Worker g h b that(1) show ?thesis by blast
  qed
qed

lemma spurious_step_cases [consumes 1, case_names Spurious_worker Spurious_client]:
  assumes "spurious_step u s = Some s'"
  obtains
    (Spurious_worker) i where "u = Worker i" "i < length (threads s)"
      "wpc (threads s ! i) = W_Blocked"
      "s' = set_wpc i W_Woken s"
  | (Spurious_client) c k where "u = Client c" "c < length (clients s)"
      "cpc (clients s ! c) = WA_Blocked k"
      "s' = set_cpc c (WA_Woken k) s"
proof (cases u)
  case (Worker i)
  with assms have eq: "(if i < length (threads s) \<and> job_waiting (threads s ! i)
          then Some (set_wpc i W_Woken s) else None) = Some s'"
    by (simp add: spurious_step_def)
  then have g: "i < length (threads s)" "wpc (threads s ! i) = W_Blocked"
    by (simp_all add: job_waiting_def split: if_splits)
  with eq have "s' = set_wpc i W_Woken s" by (simp add: job_waiting_def)
  with Worker g that(1) show ?thesis by blast
next
  case (Client c)
  with assms have eq: "(if c < length (clients s)
          then (case cpc (clients s ! c) of
                  WA_Blocked k \<Rightarrow> Some (set_cpc c (WA_Woken k) s)
                | _ \<Rightarrow> None)
          else None) = Some s'"
    by (simp add: spurious_step_def)
  then have g: "c < length (clients s)" by (simp split: if_splits)
  with eq have eq': "(case cpc (clients s ! c) of
                  WA_Blocked k \<Rightarrow> Some (set_cpc c (WA_Woken k) s)
                | _ \<Rightarrow> None) = Some s'" by simp
  then obtain k where k: "cpc (clients s ! c) = WA_Blocked k"
    by (cases "cpc (clients s ! c)") simp_all
  with eq' have "s' = set_cpc c (WA_Woken k) s" by simp
  with Client g k that(2) show ?thesis by blast
qed

lemma step_cases [consumes 1, case_names Call Worker Client Wake Spurious]:
  assumes "step a s = Some s'"
  obtains
    (Call) c m where "a = Call c m" "ended s = None" "call_step c m s = Some s'"
  | (Worker) i where "a = Step (Worker i)" "ended s = None" "worker_step i s = Some s'"
  | (Client) c where "a = Step (Client c)" "ended s = None" "client_step c s = Some s'"
  | (Wake) t u where "a = Wake t u" "ended s = None" "wake_step t u s = Some s'"
  | (Spurious) u where "a = Spurious u" "ended s = None" "spurious_step u s = Some s'"
proof -
  have e: "ended s = None"
    using assms by (cases "ended s") (simp_all add: step_def)
  show ?thesis
  proof (cases a)
    case (Call c m)
    with assms e that(1) show ?thesis by (simp add: step_def)
  next
    case (Step t)
    show ?thesis
    proof (cases t)
      case (Worker i)
      with Step assms e that(2) show ?thesis by (simp add: step_def)
    next
      case (Client c)
      with Step assms e that(3) show ?thesis by (simp add: step_def)
    qed
  next
    case (Wake t u)
    with assms e that(4) show ?thesis by (simp add: step_def)
  next
    case (Spurious u)
    with assms e that(5) show ?thesis by (simp add: step_def)
  qed
qed

subsection \<open>The conversions of the thread count\<close>

lemma sint32_range: "- 2147483648 \<le> sint (n :: 32 word) \<and> sint n < 2147483648"
  using sint_ge[of n] sint_lt[of n] by simp

lemma uint_scast_32_64: "uint (scast (n :: 32 word) :: 64 word) = take_bit 64 (sint n)"
  by (simp only: scast_eq uint_word_of_int_eq len_bit0 len_num1 mult_numeral_1_right
       numeral_times_numeral semiring_norm)

lemma pow64: "(2::int) ^ 64 = 18446744073709551616"
  by simp

lemma scast_negative:
  assumes "sint (n :: 32 word) < 0"
  shows "vector_max_size < (scast n :: 64 word)"
proof -
  have "sint n + 2 ^ 64 \<le> take_bit 64 (sint n)"
    using assms by (rule take_bit_int_greater_eq)
  then have "(1152921504606846975::int) < take_bit 64 (sint n)"
    using sint32_range[of n] unfolding pow64 by linarith
  moreover have "uint vector_max_size = 1152921504606846975"
    by (simp add: vector_max_size_def)
  ultimately show ?thesis
    by (simp only: word_less_alt uint_scast_32_64)
qed

lemma scast_nonnegative:
  assumes "0 \<le> sint (n :: 32 word)"
  shows "\<not> vector_max_size < (scast n :: 64 word)"
proof -
  have "sint n < 2 ^ 64" using sint32_range[of n] unfolding pow64 by linarith
  then have "take_bit 64 (sint n) = sint n"
    using assms by (simp only: take_bit_int_eq_self)
  moreover have "uint vector_max_size = 1152921504606846975"
    by (simp add: vector_max_size_def)
  ultimately show ?thesis
    using sint32_range[of n] by (simp only: word_less_alt uint_scast_32_64) linarith
qed

lemma unat_nonnegative:
  assumes "0 \<le> sint (n :: 32 word)"
  shows "unat n = nat (sint n)"
proof -
  have "sint n < 2 ^ 32" using sint32_range[of n] by simp
  then have "take_bit 32 (sint n) = sint n"
    using assms by (simp only: take_bit_int_eq_self)
  moreover have "uint n = take_bit 32 (sint n)"
    using uint_sint[of n] by simp
  ultimately show ?thesis by (simp add: unat_eq_nat_uint)
qed


subsection \<open>Mutual exclusion on the queue mutex\<close>

lemma map_update_same [simp]:
  "i < length xs \<Longrightarrow> f (xs ! i) = y \<Longrightarrow> (map f xs)[i := y] = map f xs"
  by (simp add: list_eq_iff_nth_eq nth_list_update)

lemma mutex_ok_w:
  "mutex_ok ws cs m \<Longrightarrow> i < length ws \<Longrightarrow>
   (m' = m \<and> (in_next_job p \<longrightarrow> in_next_job (ws ! i))) \<or>
   (m = None \<and> m' = Some (Worker i)) \<or>
   (in_next_job (ws ! i) \<and> \<not> in_next_job p \<and> m' = None) \<Longrightarrow>
   mutex_ok (ws[i := p]) cs m'"
  by (auto simp: mutex_ok_def nth_list_update)

lemma mutex_ok_c:
  "mutex_ok ws cs m \<Longrightarrow> c < length cs \<Longrightarrow>
   (m' = m \<and> (in_AddJob p \<longrightarrow> in_AddJob (cs ! c))) \<or>
   (m = None \<and> m' = Some (Client c)) \<or>
   (in_AddJob (cs ! c) \<and> \<not> in_AddJob p \<and> m' = None) \<Longrightarrow>
   mutex_ok ws (cs[c := p]) m'"
  by (auto simp: mutex_ok_def nth_list_update)

lemma notify_all_nth:
  "i < length ts \<Longrightarrow>
   wpc (notify_all ts ! i) = (if wpc (ts ! i) = W_Blocked then W_Woken else wpc (ts ! i)) \<and>
   joinable (notify_all ts ! i) = joinable (ts ! i)"
  by (simp add: notify_all_def job_waiting_def)

lemma notify_all_length [simp]: "length (notify_all ts) = length ts"
  by (simp add: notify_all_def)

lemma mutex_ok_notify_all:
  "mutex_ok (map wpc ts) cs m \<Longrightarrow> mutex_ok (map wpc (notify_all ts)) cs m"
  by (auto simp: mutex_ok_def notify_all_nth)

lemma inv_mutex_worker:
  assumes "worker_step i s = Some s'" "inv_mutex s"
  shows "inv_mutex s'"
  using assms
  by (cases rule: worker_step_cases)
     (auto simp: inv_mutex_def map_update intro!: mutex_ok_w[where m = "queue_mutex s"])

lemma inv_mutex_client:
  assumes "client_step c s = Some s'" "inv_mutex s"
  shows "inv_mutex s'"
  using assms
  by (cases rule: client_step_cases)
     (auto simp: inv_mutex_def map_update
           intro!: mutex_ok_c[where m = "queue_mutex s"] mutex_ok_notify_all)

lemma inv_mutex_call:
  assumes "call_step c m s = Some s'" "inv_mutex s"
  shows "inv_mutex s'"
  using assms
  by (cases rule: call_step_cases)
     (auto simp: inv_mutex_def map_update intro!: mutex_ok_c[where m = "queue_mutex s"])

lemma inv_mutex_wake:
  assumes "wake_step t u s = Some s'" "inv_mutex s"
  shows "inv_mutex s'"
  using assms
  by (cases rule: wake_step_cases)
     (auto simp: inv_mutex_def map_update
           intro!: mutex_ok_c[where m = "queue_mutex s"] mutex_ok_w[where m = "queue_mutex s"])

lemma inv_mutex_spurious:
  assumes "spurious_step u s = Some s'" "inv_mutex s"
  shows "inv_mutex s'"
  using assms
  by (cases rule: spurious_step_cases)
     (auto simp: inv_mutex_def map_update
           intro!: mutex_ok_c[where m = "queue_mutex s"] mutex_ok_w[where m = "queue_mutex s"])

lemma inv_mutex_step:
  assumes "step a s = Some s'" "inv_mutex s"
  shows "inv_mutex s'"
  using assms
  by (cases rule: step_cases)
     (blast intro: inv_mutex_worker inv_mutex_client inv_mutex_call inv_mutex_wake inv_mutex_spurious)+

lemma inv_mutex_init: "ThreadPool nc n = Inr s \<Longrightarrow> inv_mutex s"
  by (drule ThreadPool_Inr) (simp add: inv_mutex_def mutex_ok_def)

lemma inv_mutex_reachable: "reachable s \<Longrightarrow> inv_mutex s"
  by (induction rule: reachable.induct) (blast intro: inv_mutex_init inv_mutex_step)+


subsection \<open>Executions\<close>

lemma reachable_initial: "reachable (initial_pool nc 1)"
proof -
  have "ThreadPool nc 1 = Inr (initial_pool nc 1)"
    by (simp add: ThreadPool_def vector_max_size_def)
  then show ?thesis by (rule reachable_init)
qed

lemma reachable_run:
  "reachable s \<Longrightarrow> run as s = Some s' \<Longrightarrow> reachable s'"
proof (induction as arbitrary: s)
  case Nil
  then show ?case by simp
next
  case (Cons a as)
  from Cons.prems(2) obtain t where t: "step a s = Some t" "run as t = Some s'"
    by (cases "step a s") simp_all
  from Cons.prems(1) t(1) have "reachable t" by (rule reachable_step)
  then show ?case using t(2) by (rule Cons.IH)
qed

lemma run_append:
  "run (as @ bs) s = (case run as s of None \<Rightarrow> None | Some t \<Rightarrow> run bs t)"
  by (induction as arbitrary: s) (simp_all split: option.splits)

lemmas exec_defs =
  step_def call_step_def client_step_def worker_step_def wake_step_def spurious_step_def
  set_cpc_def set_wpc_def JoinAll_return_def end_of_life_def WaitAll_return_def job_waiting_def
  idle_waiting_def notify_all_def initial_pool_def

lemma run_submit_and_take: "run submit_and_take (initial_pool 1 1) = Some job_started"
  by (simp add: submit_and_take_def job_started_def exec_defs)

lemma reachable_job_started: "reachable job_started"
  using reachable_initial run_submit_and_take by (rule reachable_run)

lemma run_job_returned:
  "run (submit_and_take @ [Step (Worker 0)]) (initial_pool 1 1) = Some job_returned"
  by (simp add: submit_and_take_def job_returned_def exec_defs)

lemma reachable_job_returned: "reachable job_returned"
  using reachable_initial run_job_returned by (rule reachable_run)

lemma run_shutdown_now: "run shutdown_now (initial_pool 1 1) = Some after_shutdown"
  by (simp add: shutdown_now_def after_shutdown_def exec_defs)

lemma reachable_after_shutdown: "reachable after_shutdown"
  using reachable_initial run_shutdown_now by (rule reachable_run)

lemma run_draining_trace: "run draining_trace (initial_pool 1 1) = Some draining"
  by (simp add: draining_trace_def draining_def exec_defs)

lemma reachable_draining: "reachable draining"
  using reachable_initial run_draining_trace by (rule reachable_run)

lemma run_joining_trace: "run joining_trace (initial_pool 1 1) = Some joined"
  by (simp add: joining_trace_def joined_def exec_defs)

lemma reachable_joined: "reachable joined"
  using reachable_initial run_joining_trace by (rule reachable_run)



lemma run_destroy_trace: "run destroy_trace (initial_pool 1 1) = Some destroyed"
  by (simp add: destroy_trace_def destroyed_def exec_defs)

lemma reachable_destroyed: "reachable destroyed"
  using reachable_initial run_destroy_trace by (rule reachable_run)

lemma run_bailing_trace: "run bailing_trace (initial_pool 1 1) = Some bailing_out"
  by (simp add: bailing_trace_def bailing_out_def exec_defs)

lemma reachable_bailing_out: "reachable bailing_out"
  using reachable_initial run_bailing_trace by (rule reachable_run)

lemma run_failing_trace: "run failing_trace (initial_pool 1 1) = Some job_failing"
  by (simp add: failing_trace_def job_failing_def exec_defs)

lemma reachable_job_failing: "reachable job_failing"
  using reachable_initial run_failing_trace by (rule reachable_run)

lemma run_two_jobs_trace: "run two_jobs_trace (initial_pool 1 1) = Some two_jobs"
  by (simp add: two_jobs_trace_def two_jobs_def exec_defs)

lemma reachable_two_jobs: "reachable two_jobs"
  using reachable_initial run_two_jobs_trace by (rule reachable_run)







subsection \<open>The counter of outstanding jobs\<close>

lemma cnt_nonneg [simp]: "0 \<le> cnt P xs"
  by (simp add: cnt_def)

lemma cnt_Nil [simp]: "cnt P [] = 0"
  by (simp add: cnt_def)

lemma cnt_Cons [simp]: "cnt P (x # xs) = (if P x then 1 else 0) + cnt P xs"
  by (simp add: cnt_def)

lemma cnt_append [simp]: "cnt P (xs @ ys) = cnt P xs + cnt P ys"
  by (simp add: cnt_def)

lemma cnt_update:
  "i < length xs \<Longrightarrow>
   cnt P (xs[i := x]) = cnt P xs - (if P (xs ! i) then 1 else 0) + (if P x then 1 else 0)"
proof (induction xs arbitrary: i)
  case Nil
  then show ?case by simp
next
  case (Cons y ys)
  then show ?case by (cases i) simp_all
qed

lemma cnt_replicate [simp]: "cnt P (replicate n x) = (if P x then int n else 0)"
  by (induction n) simp_all

lemma cnt_zero_iff: "cnt P xs = 0 \<longleftrightarrow> (\<forall>i < length xs. \<not> P (xs ! i))"
  by (simp add: cnt_def filter_empty_conv all_set_conv_all_nth)

lemma cnt_holding_notify_all [simp]:
  "cnt holding (map wpc (notify_all ts)) = cnt holding (map wpc ts)"
  by (induction ts) (simp_all add: notify_all_def job_waiting_def)

lemma cnt_inc_zero:
  "mutex_ok ws cs m \<Longrightarrow> i < length ws \<Longrightarrow> in_next_job (ws ! i) \<Longrightarrow> cnt is_A_Inc cs = 0"
  unfolding cnt_zero_iff mutex_ok_def
proof (intro allI impI)
  fix c
  assume a: "(\<forall>i<length ws. in_next_job (ws ! i) \<longrightarrow> m = Some (Worker i)) \<and>
       (\<forall>c<length cs. in_AddJob (cs ! c) \<longrightarrow> m = Some (Client c))"
    and i: "i < length ws" "in_next_job (ws ! i)" and c: "c < length cs"
  from a i have m: "m = Some (Worker i)" by blast
  show "\<not> is_A_Inc (cs ! c)"
  proof
    assume "is_A_Inc (cs ! c)"
    then have "in_AddJob (cs ! c)" by (cases "cs ! c") simp_all
    with a c have "m = Some (Client c)" by blast
    with m show False by simp
  qed
qed

lemma count_ok_nonneg:
  assumes "count_ok ws cs q n"
  shows "0 \<le> n"
proof -
  have "0 \<le> cnt holding ws" by simp
  with assms show ?thesis unfolding count_ok_def by linarith
qed

lemma inv_count_worker:
  assumes "worker_step i s = Some s'" "inv_count s" "inv_mutex s"
  shows "inv_count s'"
  using assms(1)
proof (cases rule: worker_step_cases)
  case (Pop j q)
  from assms(3) Pop(1,2) have "cnt is_A_Inc (cpcs s) = 0"
    by (intro cnt_inc_zero[where i = i and ws = "wpcs s" and m = "queue_mutex s"])
       (simp_all add: inv_mutex_def)
  with assms(2) Pop show ?thesis
    by (simp add: inv_count_def count_ok_def map_update cnt_update)
qed (use assms(2) in \<open>auto simp: inv_count_def count_ok_def map_update cnt_update\<close>)

lemma inv_count_client:
  assumes "client_step c s = Some s'" "inv_count s"
  shows "inv_count s'"
  using assms
  by (cases rule: client_step_cases)
     (auto simp: inv_count_def count_ok_def map_update cnt_update)

lemma inv_count_call:
  assumes "call_step c m s = Some s'" "inv_count s"
  shows "inv_count s'"
  using assms
  by (cases rule: call_step_cases)
     (auto simp: inv_count_def count_ok_def map_update cnt_update)

lemma inv_count_wake:
  assumes "wake_step t u s = Some s'" "inv_count s"
  shows "inv_count s'"
  using assms
  by (cases rule: wake_step_cases)
     (auto simp: inv_count_def count_ok_def map_update cnt_update)

lemma inv_count_spurious:
  assumes "spurious_step u s = Some s'" "inv_count s"
  shows "inv_count s'"
  using assms
  by (cases rule: spurious_step_cases)
     (auto simp: inv_count_def count_ok_def map_update cnt_update)

lemma inv_count_step:
  assumes "step a s = Some s'" "inv_count s" "inv_mutex s"
  shows "inv_count s'"
  using assms
  by (cases rule: step_cases)
     (blast intro: inv_count_worker inv_count_client inv_count_call inv_count_wake
        inv_count_spurious)+

lemma inv_count_init: "ThreadPool nc n = Inr s \<Longrightarrow> inv_count s"
  by (drule ThreadPool_Inr) (simp add: inv_count_def count_ok_def)

lemma inv_count_reachable: "reachable s \<Longrightarrow> inv_count s"
  by (induction rule: reachable.induct)
     (blast intro: inv_count_init inv_count_step inv_mutex_reachable)+

lemma cnt_dec_notify_all [simp]:
  "cnt is_W_Dec (map wpc (notify_all ts)) = cnt is_W_Dec (map wpc ts)"
  by (induction ts) (simp_all add: notify_all_def job_waiting_def)

lemma cnt_noop_notify_all [simp]:
  "cnt noop_in_hand (map wpc (notify_all ts)) = cnt noop_in_hand (map wpc ts)"
  by (induction ts) (simp_all add: notify_all_def job_waiting_def)

lemma inv_ghost_worker:
  assumes "worker_step i s = Some s'" "inv_ghost s"
  shows "inv_ghost s'"
  using assms
  by (cases rule: worker_step_cases)
     (auto simp: inv_ghost_def tally_ok_def logs_ok_def map_update cnt_update)

lemma inv_ghost_client:
  assumes "client_step c s = Some s'" "inv_ghost s"
  shows "inv_ghost s'"
  using assms
  by (cases rule: client_step_cases)
     (auto simp: inv_ghost_def tally_ok_def logs_ok_def map_update cnt_update)

lemma inv_ghost_call:
  assumes "call_step c m s = Some s'" "inv_ghost s"
  shows "inv_ghost s'"
  using assms
  by (cases rule: call_step_cases)
     (auto simp: inv_ghost_def tally_ok_def logs_ok_def map_update cnt_update)

lemma inv_ghost_wake:
  assumes "wake_step t u s = Some s'" "inv_ghost s"
  shows "inv_ghost s'"
  using assms
  by (cases rule: wake_step_cases)
     (auto simp: inv_ghost_def tally_ok_def logs_ok_def map_update cnt_update)

lemma inv_ghost_spurious:
  assumes "spurious_step u s = Some s'" "inv_ghost s"
  shows "inv_ghost s'"
  using assms
  by (cases rule: spurious_step_cases)
     (auto simp: inv_ghost_def tally_ok_def logs_ok_def map_update cnt_update)

lemma inv_ghost_step:
  assumes "step a s = Some s'" "inv_ghost s"
  shows "inv_ghost s'"
  using assms
  by (cases rule: step_cases)
     (blast intro: inv_ghost_worker inv_ghost_client inv_ghost_call inv_ghost_wake
        inv_ghost_spurious)+

lemma inv_ghost_init: "ThreadPool nc n = Inr s \<Longrightarrow> inv_ghost s"
  by (drule ThreadPool_Inr) (simp add: inv_ghost_def tally_ok_def logs_ok_def)

lemma inv_ghost_reachable: "reachable s \<Longrightarrow> inv_ghost s"
  by (induction rule: reachable.induct) (blast intro: inv_ghost_init inv_ghost_step)+


subsection \<open>Joining the workers\<close>

lemma joined_prefix_0 [simp]: "joined_prefix ts 0"
  by (simp add: joined_prefix_def)

lemma joined_prefix_mono: "joined_prefix ts k \<Longrightarrow> k' \<le> k \<Longrightarrow> joined_prefix ts k'"
  by (auto simp: joined_prefix_def)

lemma joined_prefix_beyond: "joined_prefix ts k \<Longrightarrow> length ts \<le> k \<Longrightarrow> joined_prefix ts k'"
  by (auto simp: joined_prefix_def)

lemma joined_prefix_Suc:
  "joined_prefix ts i \<Longrightarrow> \<not> joinable (ts ! i) \<Longrightarrow> joined_prefix ts (Suc i)"
  by (auto simp: joined_prefix_def less_Suc_eq)

lemma join_ok_at:
  "join_ok ts cs fin \<Longrightarrow> c < length cs \<Longrightarrow> joined_prefix ts (join_progress (length ts) (cs ! c))"
  by (simp add: join_ok_def)

lemma join_ok_wpc:
  "join_ok ts cs fin \<Longrightarrow> i < length ts \<Longrightarrow> wpc (ts ! i) \<noteq> W_Exit \<Longrightarrow>
   join_ok (ts[i := (ts ! i)\<lparr> wpc := p \<rparr>]) cs fin"
  by (auto simp: join_ok_def joined_prefix_def nth_list_update)

lemma join_ok_notify_all:
  "join_ok ts cs fin \<Longrightarrow> join_ok (notify_all ts) cs fin"
  by (auto simp: join_ok_def joined_prefix_def notify_all_nth)

lemma join_ok_c:
  "join_ok ts cs fin \<Longrightarrow> c < length cs \<Longrightarrow> joined_prefix ts (join_progress (length ts) p) \<Longrightarrow>
   join_ok ts (cs[c := p]) fin"
  by (auto simp: join_ok_def nth_list_update)

lemma join_ok_join:
  "join_ok ts cs fin \<Longrightarrow> i < length ts \<Longrightarrow> wpc (ts ! i) = W_Exit \<Longrightarrow>
   join_ok (ts[i := (ts ! i)\<lparr> joinable := False \<rparr>]) cs fin"
  by (auto simp: join_ok_def joined_prefix_def nth_list_update)

lemma joined_prefix_join:
  "joined_prefix ts i \<Longrightarrow> joined_prefix (ts[i := (ts ! i)\<lparr> joinable := False \<rparr>]) (Suc i)"
  by (auto simp: joined_prefix_def nth_list_update less_Suc_eq)

lemma join_ok_finish:
  "join_ok ts cs fin \<Longrightarrow> joined_prefix ts (length ts) \<Longrightarrow> join_ok ts cs True"
  by (simp add: join_ok_def)

lemma join_ok_all_exited:
  "join_ok ts cs True \<Longrightarrow> i < length ts \<Longrightarrow> wpc (ts ! i) = W_Exit \<and> \<not> joinable (ts ! i)"
  by (auto simp: join_ok_def joined_prefix_def)

lemma inv_join_worker:
  assumes "worker_step i s = Some s'" "inv_join s"
  shows "inv_join s'"
  using assms
  by (cases rule: worker_step_cases)
     (auto simp: inv_join_def set_wpc_def intro!: join_ok_wpc)

lemma inv_join_client:
  assumes "client_step c s = Some s'" "inv_join s"
  shows "inv_join s'"
proof -
  from assms(2) have ok: "join_ok (threads s) (cpcs s) (finished s)"
    and d: "ended s = Some Destroyed \<longrightarrow> finished s"
    by (simp_all add: inv_join_def)
  have at: "c < length (clients s) \<Longrightarrow>
    joined_prefix (threads s) (join_progress (length (threads s)) (cpc (clients s ! c)))"
    using join_ok_at[OF ok, of c] by simp
  from assms(1) show ?thesis
  proof (cases rule: client_step_cases)
    case (J_NotifyAll w)
    then show ?thesis using ok d
      by (auto simp: inv_join_def map_update intro!: join_ok_c join_ok_notify_all)
  next
    case (J_Check w i)
    then show ?thesis using ok d at
      by (auto simp: inv_join_def map_update intro!: join_ok_c joined_prefix_Suc)
  next
    case (J_Check_end w i)
    then show ?thesis using ok d at
      by (auto simp: inv_join_def map_update intro!: join_ok_c
               elim: joined_prefix_beyond)
  next
    case (J_JoinWait w i)
    let ?ts = "(threads s)[i := (threads s ! i)\<lparr> joinable := False \<rparr>]"
    have 1: "join_ok ?ts (cpcs s) (finished s)"
      using ok J_JoinWait(3,4) by (rule join_ok_join)
    from at J_JoinWait(1,2) have "joined_prefix (threads s) i" by simp
    then have "joined_prefix ?ts (Suc i)" by (rule joined_prefix_join)
    then have 2: "joined_prefix ?ts (join_progress (length ?ts) (J_Check w (i + 1)))" by simp
    have "join_ok ?ts ((cpcs s)[c := J_Check w (i + 1)]) (finished s)"
      using 1 _ 2 by (rule join_ok_c) (simp add: J_JoinWait(1))
    then show ?thesis using J_JoinWait d
      by (simp add: inv_join_def map_update)
  next
    case (J_Fin w)
    then show ?thesis using ok d at
      by (auto simp: inv_join_def map_update intro!: join_ok_c join_ok_finish)
  next
    case (J_Entry_finished w)
    then show ?thesis using ok d
      by (auto simp: inv_join_def map_update intro!: join_ok_c)
  qed (use ok d in \<open>auto simp: inv_join_def map_update intro!: join_ok_c\<close>)
qed

lemma inv_join_call:
  assumes "call_step c m s = Some s'" "inv_join s"
  shows "inv_join s'"
  using assms
  by (cases rule: call_step_cases)
     (auto simp: inv_join_def map_update intro!: join_ok_c)

lemma inv_join_wake:
  assumes "wake_step t u s = Some s'" "inv_join s"
  shows "inv_join s'"
  using assms
  by (cases rule: wake_step_cases)
     (auto simp: inv_join_def map_update set_wpc_def intro!: join_ok_c join_ok_wpc)

lemma inv_join_spurious:
  assumes "spurious_step u s = Some s'" "inv_join s"
  shows "inv_join s'"
  using assms
  by (cases rule: spurious_step_cases)
     (auto simp: inv_join_def map_update set_wpc_def intro!: join_ok_c join_ok_wpc)

lemma inv_join_step:
  assumes "step a s = Some s'" "inv_join s"
  shows "inv_join s'"
  using assms
  by (cases rule: step_cases)
     (blast intro: inv_join_worker inv_join_client inv_join_call inv_join_wake
        inv_join_spurious)+

lemma inv_join_init: "ThreadPool nc n = Inr s \<Longrightarrow> inv_join s"
  by (drule ThreadPool_Inr) (simp add: inv_join_def join_ok_def joined_prefix_def)

lemma inv_join_reachable: "reachable s \<Longrightarrow> inv_join s"
  by (induction rule: reachable.induct) (blast intro: inv_join_init inv_join_step)+

lemma finished_all_exited:
  assumes "reachable s" "finished s" "i < length (threads s)"
  shows "wpc (threads s ! i) = W_Exit \<and> \<not> joinable (threads s ! i)"
proof -
  from assms(1) have "inv_join s" by (rule inv_join_reachable)
  with assms(2) have "join_ok (threads s) (cpcs s) True" by (simp add: inv_join_def)
  then show ?thesis using assms(3) by (rule join_ok_all_exited)
qed


subsection \<open>Single transitions, forwards\<close>

lemma step_worker: "ended s = None \<Longrightarrow> step (Step (Worker i)) s = worker_step i s"
  by (simp add: step_def)

lemma step_client: "ended s = None \<Longrightarrow> step (Step (Client c)) s = client_step c s"
  by (simp add: step_def)

lemma step_call: "ended s = None \<Longrightarrow> step (Call c m) s = call_step c m s"
  by (simp add: step_def)

lemma call_JoinAll:
  "c < length (clients s) \<Longrightarrow> cpc (clients s ! c) = C_Idle \<Longrightarrow>
   call_step c (JoinAll w) s = Some (set_cpc c (J_Entry w) s)"
  by (simp add: call_step_def)

lemma call_AddJob:
  "c < length (clients s) \<Longrightarrow> cpc (clients s ! c) = C_Idle \<Longrightarrow>
   call_step c (AddJob f) s = Some (set_cpc c (A_Lock f) s)"
  by (simp add: call_step_def)

lemma at_J_Entry_finished:
  "c < length (clients s) \<Longrightarrow> cpc (clients s ! c) = J_Entry w \<Longrightarrow> finished s \<Longrightarrow>
   client_step c s = Some (JoinAll_return c s)"
  by (simp add: client_step_def)

lemma at_A_Lock:
  "c < length (clients s) \<Longrightarrow> cpc (clients s ! c) = A_Lock f \<Longrightarrow> queue_mutex s = None \<Longrightarrow>
   client_step c s = Some (set_cpc c (A_Enqueue f) (s\<lparr> queue_mutex := Some (Client c) \<rparr>))"
  by (simp add: client_step_def)

lemma at_A_Enqueue:
  "c < length (clients s) \<Longrightarrow> cpc (clients s ! c) = A_Enqueue f \<Longrightarrow>
   client_step c s =
     Some (set_cpc c (A_Inc (length (futures s)))
             (s\<lparr> futures := futures s @ [Pending],
                 queue := queue s @ [Packaged (length (futures s)) f],
                 submitted := submitted s @ [Packaged (length (futures s)) f],
                 accepted := accepted s + 1 \<rparr>))"
  by (simp add: client_step_def)

lemma at_A_Inc:
  "c < length (clients s) \<Longrightarrow> cpc (clients s ! c) = A_Inc h \<Longrightarrow>
   client_step c s = Some (set_cpc c (A_Notify h) (s\<lparr> jobs_left := jobs_left s + 1 \<rparr>))"
  by (simp add: client_step_def)

lemma at_A_Notify:
  "c < length (clients s) \<Longrightarrow> cpc (clients s ! c) = A_Notify h \<Longrightarrow>
   \<not> list_ex job_waiting (threads s) \<Longrightarrow>
   client_step c s = Some (set_cpc c (A_Unlock h) s)"
  by (simp add: client_step_def)

lemma at_A_Unlock:
  "c < length (clients s) \<Longrightarrow> cpc (clients s ! c) = A_Unlock h \<Longrightarrow>
   client_step c s =
     Some (s\<lparr> queue_mutex := None,
              clients := (clients s)[c := (clients s ! c)
                 \<lparr> cpc := C_Idle, futs := futs (clients s ! c) @ [h] \<rparr>] \<rparr>)"
  by (simp add: client_step_def)

lemma at_W_Test:
  "i < length (threads s) \<Longrightarrow> wpc (threads s ! i) = W_Test \<Longrightarrow>
   worker_step i s = Some (set_wpc i (if \<not> bailout s then W_Pop else W_Inject) s)"
  by (simp add: worker_step_def)

lemma at_W_Inject:
  "i < length (threads s) \<Longrightarrow> wpc (threads s ! i) = W_Inject \<Longrightarrow>
   worker_step i s =
     Some (set_wpc i (W_Unlock Noop)
             (s\<lparr> jobs_left := jobs_left s + 1, injected := injected s + 1 \<rparr>))"
  by (simp add: worker_step_def)

lemma at_W_Unlock:
  "i < length (threads s) \<Longrightarrow> wpc (threads s ! i) = W_Unlock j \<Longrightarrow>
   worker_step i s = Some (set_wpc i (W_Call j) (s\<lparr> queue_mutex := None \<rparr>))"
  by (simp add: worker_step_def)

lemma at_W_Exec:
  "i < length (threads s) \<Longrightarrow> wpc (threads s ! i) = W_Exec h f \<Longrightarrow>
   h < length (futures s) \<Longrightarrow> futures s ! h = Pending \<Longrightarrow>
   worker_step i s =
     Some (set_wpc i W_Dec
             (s\<lparr> futures := (futures s)[h := packaged_task_call f],
                 events := events s @ [Finish h],
                 completed := completed s + 1 \<rparr>))"
  by (simp add: worker_step_def)

lemma at_W_Dec:
  "i < length (threads s) \<Longrightarrow> wpc (threads s ! i) = W_Dec \<Longrightarrow>
   worker_step i s = Some (set_wpc i W_Notify (s\<lparr> jobs_left := jobs_left s - 1 \<rparr>))"
  by (simp add: worker_step_def)

lemma step_wake: "ended s = None \<Longrightarrow> step (Wake t u) s = wake_step t u s"
  by (simp add: step_def)

lemma at_W_Notify:
  "i < length (threads s) \<Longrightarrow> wpc (threads s ! i) = W_Notify \<Longrightarrow>
   \<not> list_ex idle_waiting (clients s) \<Longrightarrow>
   worker_step i s = Some (set_wpc i W_Loop s)"
  by (simp add: worker_step_def)

lemma wake_at_W_Notify:
  "i < length (threads s) \<Longrightarrow> wpc (threads s ! i) = W_Notify \<Longrightarrow>
   c < length (clients s) \<Longrightarrow> cpc (clients s ! c) = WA_Blocked k \<Longrightarrow>
   wake_step (Worker i) (Client c) s = Some (set_wpc i W_Loop (set_cpc c (WA_Woken k) s))"
  by (simp add: wake_step_def)















subsection \<open>What a transition leaves alone\<close>

lemma client_pc_frame:
  assumes "step a s = Some s'" "c < length (clients s)" "actor a \<noteq> Some (Client c)"
  shows "cpc (clients s' ! c) = cpc (clients s ! c) \<or>
         (\<exists>k. cpc (clients s ! c) = WA_Blocked k \<and> cpc (clients s' ! c) = WA_Woken k)"
  using assms(1)
proof (cases rule: step_cases)
  case (Call c' m)
  from Call(3) show ?thesis using Call(1) assms(2,3)
    by (cases rule: call_step_cases) (auto simp: nth_list_update)
next
  case (Worker i)
  from Worker(3) show ?thesis
    by (cases rule: worker_step_cases) auto
next
  case (Client c')
  with assms(3) have ne: "c' \<noteq> c" by simp
  from Client(3) show ?thesis using ne assms(2)
    by (cases rule: client_step_cases) (auto simp: nth_list_update)
next
  case (Wake t u)
  from Wake(3) show ?thesis using assms(2,3) Wake(1)
    by (cases rule: wake_step_cases) (auto simp: nth_list_update)
next
  case (Spurious u)
  from Spurious(3) show ?thesis using assms(2)
    by (cases rule: spurious_step_cases) (auto simp: nth_list_update)
qed

lemma bailout_frame:
  assumes "step a s = Some s'"
  shows "bailout s' = bailout s \<or>
         (bailout s' \<and> (\<exists>c w. a = Step (Client c) \<and> c < length (clients s) \<and>
            cpc (clients s ! c) = J_Bail w))"
  using assms
proof (cases rule: step_cases)
  case (Call c' m)
  from Call(3) show ?thesis by (cases rule: call_step_cases) auto
next
  case (Worker i)
  from Worker(3) show ?thesis by (cases rule: worker_step_cases) auto
next
  case (Client c')
  from Client(3) show ?thesis using Client(1)
    by (cases rule: client_step_cases) auto
next
  case (Wake t u)
  from Wake(3) show ?thesis by (cases rule: wake_step_cases) auto
next
  case (Spurious u)
  from Spurious(3) show ?thesis by (cases rule: spurious_step_cases) auto
qed

lemma length_clients_step:
  assumes "step a s = Some s'"
  shows "length (clients s') = length (clients s) \<and> length (threads s') = length (threads s)"
  using assms
proof (cases rule: step_cases)
  case (Call c' m)
  from Call(3) show ?thesis by (cases rule: call_step_cases) auto
next
  case (Worker i)
  from Worker(3) show ?thesis by (cases rule: worker_step_cases) auto
next
  case (Client c')
  from Client(3) show ?thesis
    by (cases rule: client_step_cases) auto
next
  case (Wake t u)
  from Wake(3) show ?thesis by (cases rule: wake_step_cases) auto
next
  case (Spurious u)
  from Spurious(3) show ?thesis by (cases rule: spurious_step_cases) auto
qed


subsection \<open>Waiting for the counter, and the destructor\<close>

lemma drain_wait_step:
  assumes "reachable s" "step a s = Some s'" "c < length (clients s)"
    and d: "drain_waiting (cpc (clients s ! c))"
  shows "(drain_waiting (cpc (clients s' ! c)) \<or>
         jobs_left s = 0 \<and> a = Step (Client c) \<and>
         (cpc (clients s' ! c) = WA_Unlock True \<or> cpc (clients s' ! c) = J_Bail True)) \<and>
        (actor a = Some (Client c) \<longrightarrow> bailout s' = bailout s)"
proof -
  have nonneg: "0 \<le> jobs_left s"
    using inv_count_reachable[OF assms(1)] unfolding inv_count_def by (rule count_ok_nonneg)
  have own: "a = Step (Client c) \<Longrightarrow> client_step c s = Some s'"
    using assms(2) by (cases rule: step_cases) simp_all
  have b: "actor a = Some (Client c) \<longrightarrow> bailout s' = bailout s"
    using bailout_frame[OF assms(2)] d by auto
  show ?thesis
  proof (cases "actor a = Some (Client c)")
    case False
    from client_pc_frame[OF assms(2,3) False] d b show ?thesis by auto
  next
    case True
    have "a = Step (Client c)"
      using assms(2) True d
    proof (cases rule: step_cases)
      case (Call c' m)
      from Call(3) show ?thesis using Call(1) True d
        by (cases rule: call_step_cases) auto
    next
      case (Wake t u)
      from Wake(3) show ?thesis using Wake(1) True d
        by (cases rule: wake_step_cases) auto
    qed simp_all
    from own[OF this] show ?thesis using d assms(3) nonneg b \<open>a = Step (Client c)\<close>
      by (cases rule: client_step_cases) (auto split: if_splits)
  qed
qed

lemma destroyed_all_joined:
  assumes "reachable s" "ended s = Some Destroyed"
  shows "finished s \<and>
         (\<forall>i < length (threads s). wpc (threads s ! i) = W_Exit \<and> \<not> joinable (threads s ! i))"
proof -
  from assms(1) have "inv_join s" by (rule inv_join_reachable)
  with assms(2) have f: "finished s" by (simp add: inv_join_def)
  with finished_all_exited[OF assms(1)] show ?thesis by blast
qed


subsection \<open>The destructor against \<^verbatim>\<open>JoinAll(true)\<close>\<close>

lemma no_dtor_fields [simp]:
  "threads (no_dtor c s) = threads s"
  "queue (no_dtor c s) = queue s"
  "jobs_left (no_dtor c s) = jobs_left s"
  "bailout (no_dtor c s) = bailout s"
  "finished (no_dtor c s) = finished s"
  "queue_mutex (no_dtor c s) = queue_mutex s"
  "wait_mutex (no_dtor c s) = wait_mutex s"
  "futures (no_dtor c s) = futures s"
  "ended (no_dtor c s) = ended s"
  "threadcount (no_dtor c s) = threadcount s"
  "submitted (no_dtor c s) = submitted s"
  "dequeued (no_dtor c s) = dequeued s"
  "events (no_dtor c s) = events s"
  "accepted (no_dtor c s) = accepted s"
  "injected (no_dtor c s) = injected s"
  "completed (no_dtor c s) = completed s"
  "length (clients (no_dtor c s)) = length (clients s)"
  by (simp_all add: no_dtor_def)

lemma no_dtor_nth:
  "clients (no_dtor c s) ! d =
     (if d = c \<and> c < length (clients s) then (clients s ! c)\<lparr> dtor := False \<rparr>
      else clients s ! d)"
proof (cases "c < length (clients s)")
  case True
  then show ?thesis by (simp add: no_dtor_def nth_list_update)
next
  case False
  then have "(clients s)[c := (clients s ! c)\<lparr> dtor := False \<rparr>] = clients s"
    by (intro list_update_beyond) simp
  then show ?thesis using False by (simp add: no_dtor_def)
qed

lemma no_dtor_client [simp]:
  "cpc (clients (no_dtor c s) ! d) = cpc (clients s ! d)"
  "futs (clients (no_dtor c s) ! d) = futs (clients s ! d)"
  by (simp_all add: no_dtor_nth)

lemma no_dtor_dtor:
  "c < length (clients s) \<Longrightarrow>
   dtor (clients (no_dtor c s) ! d) = (d \<noteq> c \<and> dtor (clients s ! d))"
  by (simp add: no_dtor_nth)

lemma no_dtor_cpcs [simp]: "map cpc (clients (no_dtor c s)) = map cpc (clients s)"
  by (simp add: list_eq_iff_nth_eq)

lemma no_dtor_idle_waiting [simp]:
  "list_ex idle_waiting (clients (no_dtor c s)) = list_ex idle_waiting (clients s)"
proof -
  have "map idle_waiting (clients (no_dtor c s)) = map idle_waiting (clients s)"
    by (simp add: list_eq_iff_nth_eq idle_waiting_def)
  then have "list_ex id (map idle_waiting (clients (no_dtor c s))) =
             list_ex id (map idle_waiting (clients s))" by simp
  then show ?thesis by (simp add: list_ex_iff)
qed





























subsection \<open>The destructor on an idle pool\<close>


lemma leave_fields [simp]:
  "queue (leave i s) = queue s"
  "jobs_left (leave i s) = jobs_left s"
  "bailout (leave i s) = bailout s"
  "finished (leave i s) = finished s"
  "queue_mutex (leave i s) = queue_mutex s"
  "wait_mutex (leave i s) = wait_mutex s"
  "futures (leave i s) = futures s"
  "clients (leave i s) = clients s"
  "ended (leave i s) = ended s"
  "length (threads (leave i s)) = length (threads s)"
  by (simp_all add: leave_def)










subsection \<open>A pool without workers\<close>

lemma all_exited_at: "all_exited ts \<Longrightarrow> i < length ts \<Longrightarrow> wpc (ts ! i) = W_Exit"
  by (simp add: all_exited_def)

lemma all_exited_notify_all: "all_exited ts \<Longrightarrow> all_exited (notify_all ts)"
  by (simp add: all_exited_def notify_all_nth)

lemma all_exited_join: "all_exited ts \<Longrightarrow> all_exited (ts[i := (ts ! i)\<lparr> joinable := b \<rparr>])"
  by (cases "i < length ts") (auto simp: all_exited_def nth_list_update)

lemma all_exited_no_waiter: "all_exited ts \<Longrightarrow> \<not> list_ex job_waiting ts"
  by (auto simp: all_exited_def list_ex_iff job_waiting_def in_set_conv_nth)

lemma worker_step_not_exited:
  assumes "worker_step i s = Some s'"
  shows "i < length (threads s) \<and> wpc (threads s ! i) \<noteq> W_Exit"
  using assms by (cases rule: worker_step_cases) simp_all

lemma abandon_length [simp]: "length (abandon j fs) = length fs"
  by (cases j) simp_all

lemma fold_abandon_length [simp]: "length (fold abandon q fs) = length fs"
  by (induction q arbitrary: fs) simp_all

lemma cnt_pos_iff: "0 < cnt P xs \<longleftrightarrow> (\<exists>x \<in> set xs. P x)"
  by (induction xs) (auto simp: add_pos_nonneg)

lemma fold_abandon_nth:
  "h < length fs \<Longrightarrow>
   fold abandon q fs ! h =
     (if fs ! h = Pending \<and> 0 < cnt (queued h) q then Broken_promise else fs ! h)"
proof (induction q arbitrary: fs)
  case Nil
  then show ?case by simp
next
  case (Cons j q)
  show ?case
  proof (cases j)
    case Noop
    with Cons show ?thesis by simp
  next
    case (Packaged k f)
    have n: "0 \<le> cnt (queued h) q" by simp
    show ?thesis
    proof (cases "k < length fs \<and> fs ! k = Pending")
      case True
      then have "fold abandon (j # q) fs ! h = fold abandon q (fs[k := Broken_promise]) ! h"
        using Packaged by simp
      also have "\<dots> = (if fs[k := Broken_promise] ! h = Pending \<and> 0 < cnt (queued h) q
                        then Broken_promise else fs[k := Broken_promise] ! h)"
        using Cons.prems by (intro Cons.IH) simp
      finally show ?thesis using True Packaged Cons.prems n
        by (cases "k = h") (simp_all add: add_pos_nonneg)
    next
      case False
      then have "fold abandon (j # q) fs ! h = fold abandon q fs ! h"
        using Packaged by auto
      also have "\<dots> = (if fs ! h = Pending \<and> 0 < cnt (queued h) q
                        then Broken_promise else fs ! h)"
        using Cons.prems by (rule Cons.IH)
      finally show ?thesis using False Packaged Cons.prems n
        by (cases "k = h") auto
    qed
  qed
qed

lemma quiet_refl: "all_exited (threads s) \<Longrightarrow> ended s = None \<Longrightarrow> quiet s s"
  by (simp add: quiet_def)

lemma quiet_fut_live:
  "quiet s u \<Longrightarrow> ended u = None \<Longrightarrow> h < length (futures s) \<Longrightarrow>
   futures u ! h = futures s ! h \<and> h < length (futures u)"
  by (simp add: quiet_def)

lemma quiet_same:
  assumes "quiet s u" "all_exited (threads t)" "dequeued t = dequeued u" "events t = events u"
    and "queue t = queue u" "futures t = futures u" "ended u = None" "ended t \<noteq> Some Destroyed"
  shows "quiet s t"
  using assms by (simp add: quiet_def)

lemma quiet_enqueue:
  assumes "quiet s u" "all_exited (threads t)" "dequeued t = dequeued u" "events t = events u"
    and "queue t = queue u @ q" "futures t = futures u @ fs" "ended u = None" "ended t = None"
  shows "quiet s t"
proof -
  have "length (queue s) \<le> length (queue u)"
    using assms(1) by (metis quiet_def length_take min.cobounded1)
  with assms show ?thesis by (simp add: quiet_def nth_append)
qed

lemma quiet_destroy:
  assumes "quiet s u" "all_exited (threads t)" "dequeued t = dequeued u" "events t = events u"
    and "queue t = queue u" "futures t = fold abandon (queue u) (futures u)" "ended u = None"
    and "ended t = Some Destroyed"
  shows "quiet s t"
  unfolding quiet_def
proof (intro conjI allI impI)
  fix h
  assume h: "h < length (futures s)"
  from quiet_fut_live[OF assms(1,7) h]
  have u: "futures u ! h = futures s ! h" "h < length (futures u)" by simp_all
  have "futures t ! h =
          (if futures u ! h = Pending \<and> 0 < cnt (queued h) (queue u)
           then Broken_promise else futures u ! h)"
    using u(2) by (simp add: assms(6) fold_abandon_nth)
  then show "futures t ! h =
         (if ended t = Some Destroyed \<and> futures s ! h = Pending \<and> 0 < cnt (queued h) (queue t)
          then Broken_promise else futures s ! h)"
    using u(1) assms(5,8) by simp
qed (use assms in \<open>simp_all add: quiet_def\<close>)

lemma quiet_step:
  assumes q: "quiet s u" and "step a u = Some t"
  shows "quiet s t"
  using assms(2)
proof (cases rule: step_cases)
  case (Call c m)
  from Call(3) show ?thesis using q Call(2)
    by (cases rule: call_step_cases) (auto intro!: quiet_same[OF q] simp: quiet_def)
next
  case (Worker i)
  from q have "all_exited (threads u)" by (simp add: quiet_def)
  from worker_step_not_exited[OF Worker(3)] all_exited_at[OF this, of i]
  show ?thesis by simp
next
  case (Client c)
  from q have ex: "all_exited (threads u)" by (simp add: quiet_def)
  from Client(3) show ?thesis
  proof (cases rule: client_step_cases)
    case (A_Enqueue f)
    show ?thesis
      by (rule quiet_enqueue[OF q]) (use A_Enqueue ex Client(2) in simp_all)
  next
    case (J_Entry_finished w)
    show ?thesis
    proof (cases "dtor (clients u ! c)")
      case True
      show ?thesis
        by (rule quiet_destroy[OF q]) (use J_Entry_finished True ex Client(2) in simp_all)
    next
      case False
      show ?thesis
        by (rule quiet_same[OF q]) (use J_Entry_finished False ex Client(2) in simp_all)
    qed
  next
    case (J_Fin w)
    show ?thesis
    proof (cases "dtor (clients u ! c)")
      case True
      show ?thesis
        by (rule quiet_destroy[OF q]) (use J_Fin True ex Client(2) in simp_all)
    next
      case False
      show ?thesis
        by (rule quiet_same[OF q]) (use J_Fin False ex Client(2) in simp_all)
    qed
  qed (use ex Client(2) in \<open>auto intro!: quiet_same[OF q] all_exited_notify_all all_exited_join\<close>)
next
  case (Wake t' u')
  from q have ex: "all_exited (threads u)" by (simp add: quiet_def)
  from Wake(3) show ?thesis
  proof (cases rule: wake_step_cases)
    case (Wake_worker c i h)
    with all_exited_at[OF ex, of i] show ?thesis by simp
  next
    case (Wake_client c i k)
    with all_exited_at[OF ex, of i] show ?thesis by simp
  qed
next
  case (Spurious u')
  from q have ex: "all_exited (threads u)" by (simp add: quiet_def)
  from Spurious(3) show ?thesis
  proof (cases rule: spurious_step_cases)
    case (Spurious_worker i)
    with all_exited_at[OF ex, of i] show ?thesis by simp
  next
    case (Spurious_client c k)
    show ?thesis
      by (rule quiet_same[OF q]) (use Spurious_client ex Spurious(2) in simp_all)
  qed
qed

lemma quiet_run:
  "run as s = Some s' \<Longrightarrow> all_exited (threads s) \<Longrightarrow> ended s = None \<Longrightarrow> quiet s s'"
proof (induction as arbitrary: s' rule: rev_induct)
  case Nil
  then show ?case by (simp add: quiet_refl)
next
  case (snoc a as)
  from snoc.prems(1) obtain u where u: "run as s = Some u" "step a u = Some s'"
    by (cases "run as s") (simp_all add: run_append split: option.splits)
  from u(1) snoc.prems(2,3) have "quiet s u" by (rule snoc.IH)
  then show ?case using u(2) by (rule quiet_step)
qed

lemma AddJob_alone:
  assumes "ended s = None" "queue_mutex s = None" "c < length (clients s)"
    and "cpc (clients s ! c) = C_Idle" "\<not> list_ex job_waiting (threads s)"
  shows "run [Call c (AddJob f), Step (Client c), Step (Client c), Step (Client c),
              Step (Client c), Step (Client c)] s =
         Some (s\<lparr> queue_mutex := None,
                  futures := futures s @ [Pending],
                  queue := queue s @ [Packaged (length (futures s)) f],
                  submitted := submitted s @ [Packaged (length (futures s)) f],
                  jobs_left := jobs_left s + 1, accepted := accepted s + 1,
                  clients := (clients s)[c := (clients s ! c)
                     \<lparr> cpc := C_Idle, futs := futs (clients s ! c) @ [length (futures s)] \<rparr>] \<rparr>)"
proof -
  let ?n = "length (futures s)"
  let ?s1 = "set_cpc c (A_Lock f) s"
  let ?s2 = "set_cpc c (A_Enqueue f) (?s1\<lparr> queue_mutex := Some (Client c) \<rparr>)"
  let ?s3 = "set_cpc c (A_Inc ?n)
               (?s2\<lparr> futures := futures s @ [Pending],
                    queue := queue s @ [Packaged ?n f],
                    submitted := submitted s @ [Packaged ?n f],
                    accepted := accepted s + 1 \<rparr>)"
  let ?s4 = "set_cpc c (A_Notify ?n) (?s3\<lparr> jobs_left := jobs_left s + 1 \<rparr>)"
  let ?s5 = "set_cpc c (A_Unlock ?n) ?s4"
  let ?s6 = "?s5\<lparr> queue_mutex := None,
                 clients := (clients ?s5)[c := (clients ?s5 ! c)
                   \<lparr> cpc := C_Idle, futs := futs (clients ?s5 ! c) @ [?n] \<rparr>] \<rparr>"
  have 1: "step (Call c (AddJob f)) s = Some ?s1"
    using assms by (simp add: step_call call_AddJob)
  have 2: "step (Step (Client c)) ?s1 = Some ?s2"
    using assms by (simp add: step_client at_A_Lock)
  have 3: "step (Step (Client c)) ?s2 = Some ?s3"
    using assms by (simp add: step_client at_A_Enqueue)
  have 4: "step (Step (Client c)) ?s3 = Some ?s4"
    using assms by (simp add: step_client at_A_Inc)
  have 5: "step (Step (Client c)) ?s4 = Some ?s5"
    using assms by (simp add: step_client at_A_Notify)
  have 6: "step (Step (Client c)) ?s5 = Some ?s6"
    using assms by (simp add: step_client at_A_Unlock)
  have "run [Call c (AddJob f), Step (Client c), Step (Client c), Step (Client c),
              Step (Client c), Step (Client c)] s = Some ?s6"
    by (simp only: run.simps 1 2 3 4 5 6 option.case)
  moreover have "?s6 = s\<lparr> queue_mutex := None,
                  futures := futures s @ [Pending],
                  queue := queue s @ [Packaged (length (futures s)) f],
                  submitted := submitted s @ [Packaged (length (futures s)) f],
                  jobs_left := jobs_left s + 1, accepted := accepted s + 1,
                  clients := (clients s)[c := (clients s ! c)
                     \<lparr> cpc := C_Idle, futs := futs (clients s ! c) @ [length (futures s)] \<rparr>] \<rparr>"
    using assms(3) by (simp add: set_cpc_def)
  ultimately show ?thesis by simp
qed


subsection \<open>The holder of the queue mutex\<close>

lemma bailing_in_next_job: "bailing b p \<Longrightarrow> in_next_job p"
  by (cases "(b, p)" rule: bailing.cases) simp_all

lemma owner_worker:
  assumes "inv_mutex s" "j < length (threads s)" "in_next_job (wpc (threads s ! j))"
  shows "queue_mutex s = Some (Worker j)"
  using assms by (simp add: inv_mutex_def mutex_ok_def)

lemma owner_client:
  assumes "inv_mutex s" "c < length (clients s)" "in_AddJob (cpc (clients s ! c))"
  shows "queue_mutex s = Some (Client c)"
  using assms by (simp add: inv_mutex_def mutex_ok_def)

lemma bailout_mono:
  assumes "step a s = Some s'" "bailout s"
  shows "bailout s'"
  using bailout_frame[OF assms(1)] assms(2) by blast

lemma holder_frame:
  assumes "reachable s" "step a s = Some s'" "i < length (threads s)"
    and crit: "in_next_job (wpc (threads s ! i))" and other: "actor a \<noteq> Some (Worker i)"
  shows "queue s' = queue s \<and> dequeued s' = dequeued s \<and>
         wpc (threads s' ! i) = wpc (threads s ! i)"
proof -
  have inv: "inv_mutex s" using assms(1) by (rule inv_mutex_reachable)
  have m: "queue_mutex s = Some (Worker i)" using inv assms(3) crit by (rule owner_worker)
  have nw: "\<And>j. j < length (threads s) \<Longrightarrow> in_next_job (wpc (threads s ! j)) \<Longrightarrow> j = i"
    using owner_worker[OF inv] m by fastforce
  have nc: "\<And>c. c < length (clients s) \<Longrightarrow> in_AddJob (cpc (clients s ! c)) \<Longrightarrow> False"
    using owner_client[OF inv] m by fastforce
  from assms(2) show ?thesis
  proof (cases rule: step_cases)
    case (Call c m)
    from Call(3) show ?thesis by (cases rule: call_step_cases) simp_all
  next
    case (Worker j)
    with other have ne: "j \<noteq> i" by simp
    from Worker(3) show ?thesis using ne nw[of j] assms(3)
      by (cases rule: worker_step_cases) (simp_all add: nth_list_update)
  next
    case (Client c)
    from Client(3) show ?thesis using nc[of c] assms(3) crit
      by (cases rule: client_step_cases) (auto simp: nth_list_update notify_all_nth)
  next
    case (Wake t u)
    from Wake(3) show ?thesis using assms(3) crit other Wake(1)
      by (cases rule: wake_step_cases) (auto simp: nth_list_update)
  next
    case (Spurious u)
    from Spurious(3) show ?thesis using assms(3) crit
      by (cases rule: spurious_step_cases) (auto simp: nth_list_update)
  qed
qed

lemma bail_alone:
  assumes "i < length (threads s)" "wpc (threads s ! i) = W_Test" "bailout s" "ended s = None"
  shows "run [Step (Worker i), Step (Worker i), Step (Worker i)] s =
           Some (set_wpc i (W_Call Noop)
                   (s\<lparr> jobs_left := jobs_left s + 1, injected := injected s + 1,
                       queue_mutex := None \<rparr>))"
proof -
  let ?s1 = "set_wpc i W_Inject s"
  let ?s2 = "set_wpc i (W_Unlock Noop)
               (?s1\<lparr> jobs_left := jobs_left s + 1, injected := injected s + 1 \<rparr>)"
  let ?s3 = "set_wpc i (W_Call Noop) (?s2\<lparr> queue_mutex := None \<rparr>)"
  have 1: "step (Step (Worker i)) s = Some ?s1"
    using assms by (simp add: step_worker at_W_Test)
  have 2: "step (Step (Worker i)) ?s1 = Some ?s2"
    using assms by (simp add: step_worker at_W_Inject)
  have 3: "step (Step (Worker i)) ?s2 = Some ?s3"
    using assms by (simp add: step_worker at_W_Unlock)
  have "run [Step (Worker i), Step (Worker i), Step (Worker i)] s = Some ?s3"
    by (simp only: run.simps 1 2 3 option.case)
  moreover have "?s3 = set_wpc i (W_Call Noop)
                   (s\<lparr> jobs_left := jobs_left s + 1, injected := injected s + 1,
                       queue_mutex := None \<rparr>)"
    using assms(1) by (simp add: set_wpc_def)
  ultimately show ?thesis by simp
qed

lemma bailing_mono: "bailing b p \<Longrightarrow> b \<longrightarrow> b' \<Longrightarrow> bailing b' p"
  by (cases "(b, p)" rule: bailing.cases) auto


subsection \<open>Packaged tasks run at most once\<close>

lemma cnt_runs_notify_all [simp]:
  "cnt (runs h) (map wpc (notify_all ts)) = cnt (runs h) (map wpc ts)"
  by (induction ts) (simp_all add: notify_all_def job_waiting_def)

lemma fut_ok_at:
  "fut_ok ws q fs \<Longrightarrow>
   cnt (runs h) ws + cnt (queued h) q \<le> 1 \<and>
   (0 < cnt (runs h) ws + cnt (queued h) q \<longrightarrow> h < length fs \<and> fs ! h = Pending)"
  by (simp add: fut_ok_def)

lemma fut_ok_move:
  assumes "fut_ok ws q fs" "i < length ws"
    and "\<And>h. cnt (queued h) q' + (if runs h p then 1 else 0) =
              cnt (queued h) q + (if runs h (ws ! i) then 1 else 0)"
  shows "fut_ok (ws[i := p]) q' fs"
  unfolding fut_ok_def
proof (intro allI)
  fix h
  have "cnt (runs h) (ws[i := p]) + cnt (queued h) q' = cnt (runs h) ws + cnt (queued h) q"
    using assms(2) assms(3)[of h] by (simp add: cnt_update)
  with fut_ok_at[OF assms(1), of h]
  show "cnt (runs h) (ws[i := p]) + cnt (queued h) q' \<le> 1 \<and>
         (0 < cnt (runs h) (ws[i := p]) + cnt (queued h) q' \<longrightarrow>
          h < length fs \<and> fs ! h = Pending)"
    by simp
qed

lemma fut_ok_exec:
  assumes "fut_ok ws q fs" "i < length ws" "ws ! i = W_Exec k f" "\<not> runs k p"
    and "\<And>h. runs h p = False"
  shows "fut_ok (ws[i := p]) q (fs[k := v])"
  unfolding fut_ok_def
proof (intro allI)
  fix h
  have c: "cnt (runs h) (ws[i := p]) = cnt (runs h) ws - (if k = h then 1 else 0)"
    using assms(2,3,5) by (simp add: cnt_update)
  show "cnt (runs h) (ws[i := p]) + cnt (queued h) q \<le> 1 \<and>
         (0 < cnt (runs h) (ws[i := p]) + cnt (queued h) q \<longrightarrow>
          h < length (fs[k := v]) \<and> fs[k := v] ! h = Pending)"
  proof (cases "k = h")
    case True
    with c fut_ok_at[OF assms(1), of h] show ?thesis by simp
  next
    case False
    with c fut_ok_at[OF assms(1), of h] show ?thesis by simp
  qed
qed

lemma fut_ok_enqueue:
  assumes "fut_ok ws q fs"
  shows "fut_ok ws (q @ [Packaged (length fs) f]) (fs @ [Pending])"
  unfolding fut_ok_def
proof (intro allI)
  fix h
  show "cnt (runs h) ws + cnt (queued h) (q @ [Packaged (length fs) f]) \<le> 1 \<and>
         (0 < cnt (runs h) ws + cnt (queued h) (q @ [Packaged (length fs) f]) \<longrightarrow>
          h < length (fs @ [Pending]) \<and> (fs @ [Pending]) ! h = Pending)"
  proof (cases "h = length fs")
    case True
    with fut_ok_at[OF assms, of h] have "cnt (runs h) ws + cnt (queued h) q = 0"
      using cnt_nonneg[of "runs h" ws] cnt_nonneg[of "queued h" q] by linarith
    with True show ?thesis by simp
  next
    case False
    with fut_ok_at[OF assms, of h] show ?thesis by (auto simp: nth_append)
  qed
qed

lemma fut_ok_running:
  assumes "fut_ok ws q fs" "i < length ws" "ws ! i = W_Exec h f"
  shows "h < length fs \<and> fs ! h = Pending"
proof -
  have "cnt (runs h) ws = cnt (runs h) (ws[i := W_Loop]) + 1"
    using assms(2,3) by (simp add: cnt_update)
  then have "0 < cnt (runs h) ws + cnt (queued h) q"
    using cnt_nonneg[of "runs h" "ws[i := W_Loop]"] cnt_nonneg[of "queued h" q] by linarith
  with fut_ok_at[OF assms(1), of h] show ?thesis by blast
qed

lemma inv_fut_live: "inv_fut s \<Longrightarrow> ended s = None \<Longrightarrow> fut_ok (wpcs s) (queue s) (futures s)"
  by (simp add: inv_fut_def)

lemma inv_fut_worker:
  assumes "worker_step i s = Some s'" "inv_fut s" "ended s = None"
  shows "inv_fut s'"
  using assms(1)
proof (cases rule: worker_step_cases)
  case (Exec h f)
  have "fut_ok ((wpcs s)[i := W_Dec]) (queue s) ((futures s)[h := packaged_task_call f])"
    using inv_fut_live[OF assms(2,3)] Exec(1,2)
    by (intro fut_ok_exec[where f = f]) simp_all
  with Exec show ?thesis by (simp add: inv_fut_def map_update)
qed (use inv_fut_live[OF assms(2,3)] in \<open>auto simp: inv_fut_def map_update intro!: fut_ok_move\<close>)

lemma inv_fut_client:
  assumes "client_step c s = Some s'" "inv_fut s" "ended s = None"
  shows "inv_fut s'"
  using assms(1) inv_fut_live[OF assms(2,3)]
  by (cases rule: client_step_cases)
     (auto simp: inv_fut_def map_update fut_ok_def[of "map wpc (notify_all ts)" for ts]
           intro!: fut_ok_enqueue dest: fut_ok_at)

lemma inv_fut_call:
  assumes "call_step c m s = Some s'" "inv_fut s" "ended s = None"
  shows "inv_fut s'"
  using assms(1) inv_fut_live[OF assms(2,3)]
  by (cases rule: call_step_cases) (auto simp: inv_fut_def)

lemma inv_fut_wake:
  assumes "wake_step t u s = Some s'" "inv_fut s" "ended s = None"
  shows "inv_fut s'"
  using assms(1) inv_fut_live[OF assms(2,3)]
  by (cases rule: wake_step_cases) (auto simp: inv_fut_def map_update intro!: fut_ok_move)

lemma inv_fut_spurious:
  assumes "spurious_step u s = Some s'" "inv_fut s" "ended s = None"
  shows "inv_fut s'"
  using assms(1) inv_fut_live[OF assms(2,3)]
  by (cases rule: spurious_step_cases) (auto simp: inv_fut_def map_update intro!: fut_ok_move)

lemma inv_fut_step:
  assumes "step a s = Some s'" "inv_fut s"
  shows "inv_fut s'"
  using assms
  by (cases rule: step_cases)
     (blast intro: inv_fut_worker inv_fut_client inv_fut_call inv_fut_wake inv_fut_spurious)+

lemma inv_fut_init: "ThreadPool nc n = Inr s \<Longrightarrow> inv_fut s"
  by (drule ThreadPool_Inr) (simp add: inv_fut_def fut_ok_def)

lemma inv_fut_reachable: "reachable s \<Longrightarrow> inv_fut s"
  by (induction rule: reachable.induct) (blast intro: inv_fut_init inv_fut_step)+

lemma running_is_pending:
  assumes "reachable s" "i < length (threads s)" "wpc (threads s ! i) = W_Exec h f"
  shows "h < length (futures s) \<and> futures s ! h = Pending"
proof -
  have "ended s \<noteq> Some Destroyed"
    using destroyed_all_joined[OF assms(1)] assms(2,3) by auto
  with assms(1) have "fut_ok (wpcs s) (queue s) (futures s)"
    using inv_fut_reachable by (auto simp: inv_fut_def)
  then show ?thesis
    by (rule fut_ok_running[where i = i and f = f]) (use assms(2,3) in simp_all)
qed


subsection \<open>Order of submission, of dequeuing and of execution\<close>

lemma fifo_ok_enqueue:
  "fifo_ok sub deq q fs \<Longrightarrow>
   fifo_ok (sub @ [Packaged (length fs) f]) deq (q @ [Packaged (length fs) f]) (fs @ [Pending])"
  by (auto simp: fifo_ok_def)

lemma fifo_ok_pop:
  "fifo_ok sub deq (j # q) fs \<Longrightarrow> fifo_ok sub (deq @ [j]) q fs"
  by (auto simp: fifo_ok_def)

lemma fifo_ok_store:
  "fifo_ok sub deq q fs \<Longrightarrow> fifo_ok sub deq q (fs[h := v])"
  by (auto simp: fifo_ok_def)

lemma fifo_ok_head: "fifo_ok sub deq (j # q) fs \<Longrightarrow> j \<noteq> Noop"
  by (auto simp: fifo_ok_def)

lemma fifo_ok_abandon:
  "fifo_ok sub deq q fs \<Longrightarrow> fifo_ok sub deq q (fold abandon q' fs)"
  by (auto simp: fifo_ok_def)

lemma inv_fifo_worker:
  assumes "worker_step i s = Some s'" "inv_fifo s"
  shows "inv_fifo s'"
  using assms
  by (cases rule: worker_step_cases)
     (auto simp: inv_fifo_def intro: fifo_ok_pop fifo_ok_store)

lemma inv_fifo_client:
  assumes "client_step c s = Some s'" "inv_fifo s"
  shows "inv_fifo s'"
  using assms
  by (cases rule: client_step_cases)
     (auto simp: inv_fifo_def intro: fifo_ok_enqueue fifo_ok_abandon)

lemma inv_fifo_call:
  assumes "call_step c m s = Some s'" "inv_fifo s"
  shows "inv_fifo s'"
  using assms by (cases rule: call_step_cases) (auto simp: inv_fifo_def)

lemma inv_fifo_wake:
  assumes "wake_step t u s = Some s'" "inv_fifo s"
  shows "inv_fifo s'"
  using assms by (cases rule: wake_step_cases) (auto simp: inv_fifo_def)

lemma inv_fifo_spurious:
  assumes "spurious_step u s = Some s'" "inv_fifo s"
  shows "inv_fifo s'"
  using assms by (cases rule: spurious_step_cases) (auto simp: inv_fifo_def)

lemma inv_fifo_step:
  assumes "step a s = Some s'" "inv_fifo s"
  shows "inv_fifo s'"
  using assms
  by (cases rule: step_cases)
     (blast intro: inv_fifo_worker inv_fifo_client inv_fifo_call inv_fifo_wake
        inv_fifo_spurious)+

lemma inv_fifo_init: "ThreadPool nc n = Inr s \<Longrightarrow> inv_fifo s"
  by (drule ThreadPool_Inr) (simp add: inv_fifo_def fifo_ok_def)

lemma inv_fifo_reachable: "reachable s \<Longrightarrow> inv_fifo s"
  by (induction rule: reachable.induct) (blast intro: inv_fifo_init inv_fifo_step)+

lemma futs_ok_at:
  "futs_ok cs n \<Longrightarrow> c < length cs \<Longrightarrow>
   sorted_wrt (<) (issued (cs ! c)) \<and> (\<forall>h \<in> set (issued (cs ! c)). h < n)"
  by (simp add: futs_ok_def)

lemma futs_ok_update:
  assumes "futs_ok cs n" "n \<le> n'"
    and "sorted_wrt (<) (issued x) \<and> (\<forall>h \<in> set (issued x). h < n')"
  shows "futs_ok (cs[c := x]) n'"
proof (cases "c < length cs")
  case True
  show ?thesis
    unfolding futs_ok_def
  proof (intro allI impI)
    fix d
    assume d: "d < length (cs[c := x])"
    show "sorted_wrt (<) (issued (cs[c := x] ! d)) \<and>
          (\<forall>h \<in> set (issued (cs[c := x] ! d)). h < n')"
    proof (cases "d = c")
      case True
      with d assms(3) show ?thesis by simp
    next
      case False
      with d futs_ok_at[OF assms(1), of d] assms(2) show ?thesis by fastforce
    qed
  qed
next
  case False
  with assms(1,2) show ?thesis by (fastforce simp: futs_ok_def)
qed

lemma issued_cpc [simp]: "issued (x\<lparr> cpc := p \<rparr>) = futs x @ issuing p"
  by (simp add: issued_def)

lemma issued_cpc_dtor [simp]: "issued (x\<lparr> cpc := p, dtor := d \<rparr>) = futs x @ issuing p"
  by (simp add: issued_def)

lemma issued_cpc_futs [simp]: "issued (x\<lparr> cpc := p, futs := fs \<rparr>) = fs @ issuing p"
  by (simp add: issued_def)

lemma futs_ok_same:
  assumes "futs_ok cs n" "c < length cs" "issuing p = issuing (cpc (cs ! c))"
  shows "futs_ok (cs[c := (cs ! c)\<lparr> cpc := p \<rparr>]) n"
  using assms(1) order_refl
proof (rule futs_ok_update)
  show "sorted_wrt (<) (issued ((cs ! c)\<lparr>cpc := p\<rparr>)) \<and>
        (\<forall>h\<in>set (issued ((cs ! c)\<lparr>cpc := p\<rparr>)). h < n)"
    using futs_ok_at[OF assms(1,2)] assms(3) by (simp add: issued_def)
qed

lemma futs_ok_drop:
  assumes "futs_ok cs n" "c < length cs" "issuing p = []"
  shows "futs_ok (cs[c := (cs ! c)\<lparr> cpc := p \<rparr>]) n"
  using assms(1) order_refl
proof (rule futs_ok_update)
  show "sorted_wrt (<) (issued ((cs ! c)\<lparr>cpc := p\<rparr>)) \<and>
        (\<forall>h\<in>set (issued ((cs ! c)\<lparr>cpc := p\<rparr>)). h < n)"
    using futs_ok_at[OF assms(1,2)] assms(3)
    by (auto simp: issued_def sorted_wrt_append)
qed

lemma futs_ok_grow: "futs_ok cs n \<Longrightarrow> futs_ok cs (Suc n)"
  by (fastforce simp: futs_ok_def)

lemma futs_ok_new:
  assumes "futs_ok cs n" "c < length cs" "issuing (cpc (cs ! c)) = []"
  shows "futs_ok (cs[c := (cs ! c)\<lparr> cpc := A_Inc n \<rparr>]) (Suc n)"
  using assms(1)
proof (rule futs_ok_update)
  show "n \<le> Suc n" by simp
  show "sorted_wrt (<) (issued ((cs ! c)\<lparr>cpc := A_Inc n\<rparr>)) \<and>
        (\<forall>h\<in>set (issued ((cs ! c)\<lparr>cpc := A_Inc n\<rparr>)). h < Suc n)"
    using futs_ok_at[OF assms(1,2)] assms(3)
    by (auto simp: issued_def sorted_wrt_append less_Suc_eq)
qed

lemma futs_ok_return:
  assumes "futs_ok cs n" "c < length cs" "cpc (cs ! c) = A_Unlock h"
  shows "futs_ok (cs[c := (cs ! c)\<lparr> cpc := C_Idle, futs := futs (cs ! c) @ [h] \<rparr>]) n"
  using assms(1) order_refl
proof (rule futs_ok_update)
  show "sorted_wrt (<) (issued ((cs ! c)\<lparr>cpc := C_Idle, futs := futs (cs ! c) @ [h]\<rparr>)) \<and>
        (\<forall>k\<in>set (issued ((cs ! c)\<lparr>cpc := C_Idle, futs := futs (cs ! c) @ [h]\<rparr>)). k < n)"
    using futs_ok_at[OF assms(1,2)] assms(3) by (simp add: issued_def)
qed

lemma futs_ok_destroy:
  assumes "futs_ok cs n" "c < length cs"
  shows "futs_ok (cs[c := (cs ! c)\<lparr> cpc := J_Entry True, dtor := True \<rparr>]) n"
  using assms(1) order_refl
proof (rule futs_ok_update)
  show "sorted_wrt (<) (issued ((cs ! c)\<lparr>cpc := J_Entry True, dtor := True\<rparr>)) \<and>
        (\<forall>h\<in>set (issued ((cs ! c)\<lparr>cpc := J_Entry True, dtor := True\<rparr>)). h < n)"
    using futs_ok_at[OF assms(1,2)]
    by (auto simp: issued_def sorted_wrt_append)
qed

lemma inv_futs_worker:
  assumes "worker_step i s = Some s'" "inv_futs s"
  shows "inv_futs s'"
  using assms
  by (cases rule: worker_step_cases) (auto simp: inv_futs_def)

lemma inv_futs_client:
  assumes "client_step c s = Some s'" "inv_futs s"
  shows "inv_futs s'"
  using assms
  by (cases rule: client_step_cases)
     (auto simp: inv_futs_def intro: futs_ok_same futs_ok_drop futs_ok_new futs_ok_return)

lemma inv_futs_call:
  assumes "call_step c m s = Some s'" "inv_futs s"
  shows "inv_futs s'"
  using assms
  by (cases rule: call_step_cases)
     (auto simp: inv_futs_def intro: futs_ok_drop futs_ok_destroy)

lemma inv_futs_wake:
  assumes "wake_step t u s = Some s'" "inv_futs s"
  shows "inv_futs s'"
  using assms
  by (cases rule: wake_step_cases)
     (auto simp: inv_futs_def intro: futs_ok_same futs_ok_drop)

lemma inv_futs_spurious:
  assumes "spurious_step u s = Some s'" "inv_futs s"
  shows "inv_futs s'"
  using assms
  by (cases rule: spurious_step_cases)
     (auto simp: inv_futs_def intro: futs_ok_same futs_ok_drop)

lemma inv_futs_step:
  assumes "step a s = Some s'" "inv_futs s"
  shows "inv_futs s'"
  using assms
  by (cases rule: step_cases)
     (blast intro: inv_futs_worker inv_futs_client inv_futs_call inv_futs_wake
        inv_futs_spurious)+

lemma inv_futs_init: "ThreadPool nc n = Inr s \<Longrightarrow> inv_futs s"
  by (drule ThreadPool_Inr) (simp add: inv_futs_def futs_ok_def issued_def)

lemma inv_futs_reachable: "reachable s \<Longrightarrow> inv_futs s"
  by (induction rule: reachable.induct) (blast intro: inv_futs_init inv_futs_step)+

lemma bracket_append [simp]: "bracket (xs @ ys) = bracket xs @ bracket ys"
  by (induction xs) simp_all

lemma owed_Call [simp]: "owed (W_Call j) = owed (W_Unlock j)"
  by (cases j) simp_all

lemma owed_Unlock: "j \<noteq> Noop \<Longrightarrow> owed (W_Unlock j) = bracket [job_handle j]"
  by (cases j) simp_all

lemma serial_ok_keep:
  assumes "serial_ok ws deq ev" "i < length ws" "ev' @ owed p = ev @ owed (ws ! i)"
  shows "serial_ok (ws[i := p]) deq ev'"
  using assms by (auto simp: serial_ok_def)

lemma serial_ok_pop:
  assumes "serial_ok ws deq ev" "i < length ws" "owed (ws ! i) = []" "j \<noteq> Noop"
  shows "serial_ok (ws[i := W_Unlock j]) (deq @ [j]) ev"
  using assms by (auto simp: serial_ok_def owed_Unlock)

lemma serial_ok_notify_all:
  assumes "serial_ok (map wpc ts) deq ev"
  shows "serial_ok (map wpc (notify_all ts)) deq ev"
proof -
  have "length ts = 1 \<Longrightarrow> owed (wpc (notify_all ts ! 0)) = owed (wpc (ts ! 0))"
    by (simp add: notify_all_nth)
  with assms show ?thesis by (simp add: serial_ok_def)
qed

lemma inv_serial_worker:
  assumes "worker_step i s = Some s'" "inv_serial s" "inv_fifo s"
  shows "inv_serial s'"
  using assms(1)
proof (cases rule: worker_step_cases)
  case (Pop j q)
  from assms(3) Pop(3) have "j \<noteq> Noop"
    unfolding inv_fifo_def by (auto dest: fifo_ok_head)
  with assms(2) Pop show ?thesis
    by (auto simp: inv_serial_def map_update intro!: serial_ok_pop)
qed (use assms(2) in \<open>auto simp: inv_serial_def map_update
       intro!: serial_ok_keep[where ev = "events s"]\<close>)

lemma inv_serial_client:
  assumes "client_step c s = Some s'" "inv_serial s"
  shows "inv_serial s'"
  using assms
  by (cases rule: client_step_cases)
     (auto simp: inv_serial_def map_update intro!: serial_ok_notify_all)

lemma inv_serial_call:
  assumes "call_step c m s = Some s'" "inv_serial s"
  shows "inv_serial s'"
  using assms by (cases rule: call_step_cases) (auto simp: inv_serial_def)

lemma inv_serial_wake:
  assumes "wake_step t u s = Some s'" "inv_serial s"
  shows "inv_serial s'"
  using assms
  by (cases rule: wake_step_cases)
     (auto simp: inv_serial_def map_update intro!: serial_ok_keep[where ev = "events s"])

lemma inv_serial_spurious:
  assumes "spurious_step u s = Some s'" "inv_serial s"
  shows "inv_serial s'"
  using assms
  by (cases rule: spurious_step_cases)
     (auto simp: inv_serial_def map_update intro!: serial_ok_keep[where ev = "events s"])

lemma inv_serial_step:
  assumes "step a s = Some s'" "inv_serial s" "inv_fifo s"
  shows "inv_serial s'"
  using assms
  by (cases rule: step_cases)
     (blast intro: inv_serial_worker inv_serial_client inv_serial_call inv_serial_wake
        inv_serial_spurious)+

lemma inv_serial_init: "ThreadPool nc n = Inr s \<Longrightarrow> inv_serial s"
  by (drule ThreadPool_Inr) (simp add: inv_serial_def serial_ok_def)

lemma inv_serial_reachable: "reachable s \<Longrightarrow> inv_serial s"
  by (induction rule: reachable.induct)
     (blast intro: inv_serial_init inv_serial_step inv_fifo_reachable)+

lemma length_bracket [simp]: "length (bracket hs) = 2 * length hs"
  by (induction hs) simp_all

lemma bracket_upt_nth:
  "k < m \<Longrightarrow> bracket [0..<m] ! (2 * k) = Start k \<and> bracket [0..<m] ! (2 * k + 1) = Finish k"
proof (induction m)
  case 0
  then show ?case by simp
next
  case (Suc m)
  show ?case
  proof (cases "k < m")
    case True
    with Suc.IH show ?thesis by (simp add: nth_append)
  next
    case False
    with Suc.prems have "k = m" by simp
    then show ?thesis by (simp add: nth_append)
  qed
qed

lemma bracket_upt_Start:
  assumes "j < 2 * m" "bracket [0..<m] ! j = Start b"
  shows "j = 2 * b \<and> b < m"
proof -
  let ?k = "j div 2"
  have k: "?k < m" using assms(1) by simp
  show ?thesis
  proof (cases "even j")
    case True
    then have j: "j = 2 * ?k" by simp
    with bracket_upt_nth[OF k] have "bracket [0..<m] ! j = Start ?k" by simp
    with assms(2) have "?k = b" by simp
    with j k show ?thesis by simp
  next
    case False
    then have j: "j = 2 * ?k + 1" by presburger
    with bracket_upt_nth[OF k] have "bracket [0..<m] ! j = Finish ?k" by simp
    with assms(2) show ?thesis by simp
  qed
qed

lemma fifo_dequeued_handles:
  assumes "fifo_ok sub deq q fs"
  shows "map job_handle deq = [0..<length deq]"
proof -
  from assms have m: "map job_handle (deq @ q) = [0..<length fs]"
    by (auto simp: fifo_ok_def)
  then have l: "length deq + length q = length fs"
    by (metis length_append length_map length_upt minus_nat.diff_0)
  from m have "take (length deq) (map job_handle (deq @ q)) = take (length deq) [0..<length fs]"
    by simp
  then show ?thesis using l by (simp add: take_upt)
qed

lemma fifo_dequeued_nth:
  assumes "fifo_ok sub deq q fs" "k < length deq"
  shows "\<exists>f. deq ! k = Packaged k f"
proof -
  from fifo_dequeued_handles[OF assms(1)] assms(2)
  have h: "job_handle (deq ! k) = k"
    by (metis add_cancel_right_left length_map nth_map nth_upt)
  from assms(1) have "Noop \<notin> set deq"
    by (auto simp: fifo_ok_def)
  with assms(2) have "deq ! k \<noteq> Noop"
    by (metis nth_mem)
  with h show ?thesis by (cases "deq ! k") simp_all
qed

lemma fifo_dequeued_index:
  assumes "fifo_ok sub deq q fs" "Packaged b g \<in> set deq"
  shows "b < length deq \<and> deq ! b = Packaged b g"
proof -
  from assms(2) obtain k where k: "k < length deq" "deq ! k = Packaged b g"
    by (auto simp: in_set_conv_nth)
  from fifo_dequeued_nth[OF assms(1) k(1)] k(2) have "k = b" by auto
  with k show ?thesis by simp
qed

lemma futs_increase:
  assumes "futs_ok cs n" "c < length cs" "ka < kb" "kb < length (futs (cs ! c))"
  shows "futs (cs ! c) ! ka < futs (cs ! c) ! kb"
proof -
  from futs_ok_at[OF assms(1,2)] have "sorted_wrt (<) (futs (cs ! c))"
    by (simp add: issued_def sorted_wrt_append)
  then show ?thesis using assms(3,4) by (rule sorted_wrt_nth_less)
qed


subsection \<open>\<^verbatim>\<open>queue.front()\<close> is never reached with an empty queue\<close>

lemma worker_pc_frame:
  assumes "step a s = Some s'" "i < length (threads s)" "actor a \<noteq> Some (Worker i)"
  shows "wpc (threads s' ! i) = wpc (threads s ! i) \<or>
         (wpc (threads s ! i) = W_Blocked \<and> wpc (threads s' ! i) = W_Woken)"
  using assms(1)
proof (cases rule: step_cases)
  case (Call c m)
  from Call(3) show ?thesis by (cases rule: call_step_cases) simp_all
next
  case (Worker j)
  with assms(3) have ne: "j \<noteq> i" by simp
  from Worker(3) show ?thesis using ne assms(2)
    by (cases rule: worker_step_cases) (simp_all add: nth_list_update)
next
  case (Client c)
  from Client(3) show ?thesis using assms(2)
    by (cases rule: client_step_cases) (auto simp: nth_list_update notify_all_nth)
next
  case (Wake t u)
  from Wake(3) show ?thesis using assms(2,3) Wake(1)
    by (cases rule: wake_step_cases) (auto simp: nth_list_update)
next
  case (Spurious u)
  from Spurious(3) show ?thesis using assms(2)
    by (cases rule: spurious_step_cases) (auto simp: nth_list_update)
qed

lemma pop_ok_at:
  "pop_ok ws q b \<Longrightarrow> i < length ws \<Longrightarrow>
   (ws ! i = W_Test \<longrightarrow> q \<noteq> [] \<or> b) \<and> (ws ! i = W_Pop \<longrightarrow> q \<noteq> [])"
  by (simp add: pop_ok_def)

lemma inv_pop_step:
  assumes "reachable s" "inv_pop s" "step a s = Some s'"
  shows "inv_pop s'"
  unfolding inv_pop_def pop_ok_def
proof (intro allI impI)
  fix i
  assume "i < length (wpcs s')"
  then have i: "i < length (threads s)" "i < length (threads s')"
    using length_clients_step[OF assms(3)] by simp_all
  have old: "(wpc (threads s ! i) = W_Test \<longrightarrow> queue s \<noteq> [] \<or> bailout s) \<and>
             (wpc (threads s ! i) = W_Pop \<longrightarrow> queue s \<noteq> [])"
    using pop_ok_at[OF assms(2)[unfolded inv_pop_def], of i] i(1) by simp
  have "(wpc (threads s' ! i) = W_Test \<longrightarrow> queue s' \<noteq> [] \<or> bailout s') \<and>
        (wpc (threads s' ! i) = W_Pop \<longrightarrow> queue s' \<noteq> [])"
  proof (cases "actor a = Some (Worker i)")
    case True
    from assms(3) show ?thesis
    proof (cases rule: step_cases)
      case (Worker j)
      with True have "j = i" by simp
      with Worker(3) have "worker_step i s = Some s'" by simp
      then show ?thesis using old i(1)
        by (cases rule: worker_step_cases) auto
    next
      case (Wake t u)
      from Wake(3) show ?thesis using True Wake(1) i(1)
        by (cases rule: wake_step_cases) auto
    qed (use True in simp_all)
  next
    case False
    show ?thesis
    proof (cases "in_next_job (wpc (threads s ! i))")
      case True
      from holder_frame[OF assms(1,3) i(1) True False] bailout_mono[OF assms(3)] old
      show ?thesis by auto
    next
      case nc: False
      from worker_pc_frame[OF assms(3) i(1) False] nc show ?thesis by auto
    qed
  qed
  then show "(wpcs s' ! i = W_Test \<longrightarrow> queue s' \<noteq> [] \<or> bailout s') \<and>
             (wpcs s' ! i = W_Pop \<longrightarrow> queue s' \<noteq> [])"
    using i(2) by simp
qed

lemma inv_pop_init: "ThreadPool nc n = Inr s \<Longrightarrow> inv_pop s"
  by (drule ThreadPool_Inr) (simp add: inv_pop_def pop_ok_def)

lemma inv_pop_reachable: "reachable s \<Longrightarrow> inv_pop s"
  by (induction rule: reachable.induct) (blast intro: inv_pop_init inv_pop_step)+

lemma ended_frame:
  assumes "step a s = Some s'"
  shows "ended s' = None \<or> ended s' = Some Destroyed \<or> ended s' = Some Terminate \<or>
         (\<exists>i. i < length (threads s) \<and> wpc (threads s ! i) = W_Pop \<and> queue s = [])"
  using assms
proof (cases rule: step_cases)
  case (Call c m)
  from Call(3) show ?thesis using Call(2) by (cases rule: call_step_cases) auto
next
  case (Worker i)
  from Worker(3) show ?thesis using Worker(2) by (cases rule: worker_step_cases) auto
next
  case (Client c)
  from Client(3) show ?thesis using Client(2) by (cases rule: client_step_cases) auto
next
  case (Wake t u)
  from Wake(3) show ?thesis using Wake(2) by (cases rule: wake_step_cases) auto
next
  case (Spurious u)
  from Spurious(3) show ?thesis using Spurious(2) by (cases rule: spurious_step_cases) auto
qed

lemma front_is_defined:
  assumes "reachable s"
  shows "ended s \<noteq> Some Pop_empty"
  using assms
proof (induction rule: reachable.induct)
  case (reachable_init nc n s)
  then show ?case by (auto dest: ThreadPool_Inr)
next
  case (reachable_step s a s')
  from inv_pop_reachable[OF reachable_step(1)]
  have "\<And>i. i < length (threads s) \<Longrightarrow> wpc (threads s ! i) = W_Pop \<Longrightarrow> queue s \<noteq> []"
    unfolding inv_pop_def by (auto dest: pop_ok_at)
  with ended_frame[OF reachable_step(2)] show ?case by auto
qed


section \<open>The claims\<close>

subsection \<open>C2: construction\<close>

text \<open>
  C2, as the code has it. The constructor validates nothing. A thread count of zero or more
  constructs the pool, with that many workers, and \<^verbatim>\<open>Size\<close> returns the count: a count of
  zero gives a pool without workers. A negative count makes \<^verbatim>\<open>threads.resize\<close> throw
  \<^verbatim>\<open>std::length_error\<close>.
\<close>

theorem ThreadPool_construction:
  "(0 \<le> sint n \<longrightarrow>
      ThreadPool nc n = Inr (initial_pool nc n) \<and>
      Size (initial_pool nc n) = nat (sint n) \<and>
      length (threads (initial_pool nc n)) = nat (sint n)) \<and>
   (sint n < 0 \<longrightarrow> ThreadPool nc n = Inl Length_error)"
proof (intro conjI impI)
  assume nn: "0 \<le> sint n"
  show "ThreadPool nc n = Inr (initial_pool nc n)"
    using scast_nonnegative[OF nn] by (simp add: ThreadPool_def)
  show "Size (initial_pool nc n) = nat (sint n)"
    using unat_nonnegative[OF nn] by (simp add: Size_def)
  show "length (threads (initial_pool nc n)) = nat (sint n)"
    using unat_nonnegative[OF nn] by simp
next
  assume "sint n < 0"
  then show "ThreadPool nc n = Inl Length_error"
    using scast_negative by (simp add: ThreadPool_def)
qed

theorem ThreadPool_construction_witness:
  "ThreadPool 1 4 = Inr (initial_pool 1 4) \<and> Size (initial_pool 1 4) = 4 \<and>
   length (threads (initial_pool 1 4)) = 4 \<and> ThreadPool 1 (- 1) = Inl Length_error"
  using ThreadPool_construction[of 4 1] ThreadPool_construction[of "- 1" 1]
  by simp

text \<open>
  C2 as the specification states it fails at a thread count of zero: the constructor
  returns a pool, of size zero and without any worker.
\<close>

theorem ThreadPool_zero_counterexample:
  "ThreadPool 1 0 = Inr (initial_pool 1 0) \<and> Size (initial_pool 1 0) = 0 \<and>
   threads (initial_pool 1 0) = []"
  by (simp add: ThreadPool_def vector_max_size_def Size_def)


subsection \<open>C3: the counter of outstanding jobs\<close>

text \<open>
  C3 as the specification states it fails in the states between the end of a job and
  \<^verbatim>\<open>--jobs_left\<close>. With one caller and one worker: the caller submits a job, the worker
  takes it and runs it to its end. One job has been accepted, none made up, one has
  finished, and \<open>jobs_left\<close> is still 1.
\<close>

theorem jobs_left_counterexample:
  "run (submit_and_take @ [Step (Worker 0)]) (initial_pool 1 1) = Some job_returned \<and>
   submitted job_returned = [Packaged 0 (Returns 7)] \<and>
   events job_returned = [Start 0, Finish 0] \<and>
   futures job_returned = [Value 7] \<and>
   accepted job_returned = 1 \<and> injected job_returned = 0 \<and> completed job_returned = 1 \<and>
   jobs_left job_returned = 1 \<and>
   jobs_left job_returned \<noteq>
     int (accepted job_returned) + int (injected job_returned) - int (completed job_returned)"
  using run_job_returned by (simp add: job_returned_def)

text \<open>
  C3, as the code has it. In every state that an execution reaches, \<open>jobs_left\<close> is the
  number of jobs that \<^verbatim>\<open>AddJob\<close> has appended to the queue, plus the number of empty jobs
  that \<^verbatim>\<open>next_job\<close> has made up while bailing out, less the number of jobs whose call has
  returned, less the number of callers that have appended their job and are at
  \<^verbatim>\<open>++jobs_left\<close>, plus the number of workers whose job has returned and that are at
  \<^verbatim>\<open>--jobs_left\<close>; and it is not negative. The three numbers are those of the logs: the
  jobs accepted are the closures appended, and the jobs completed are the ends of packaged
  tasks logged, plus the empty jobs made up, less the empty jobs in the hands of a worker
  that has not called them yet.
\<close>

theorem jobs_left_invariant:
  assumes "reachable s"
  shows "jobs_left s =
           int (accepted s) + int (injected s) - int (completed s)
           - cnt is_A_Inc (cpcs s) + cnt is_W_Dec (wpcs s) \<and>
         0 \<le> jobs_left s \<and>
         accepted s = length (submitted s) \<and>
         int (completed s) =
           cnt is_Finish (events s) + int (injected s) - cnt noop_in_hand (wpcs s)"
proof -
  from assms have g: "inv_ghost s" by (rule inv_ghost_reachable)
  from assms have "inv_count s" by (rule inv_count_reachable)
  then have "0 \<le> jobs_left s"
    unfolding inv_count_def by (rule count_ok_nonneg)
  with g show ?thesis
    by (simp add: inv_ghost_def tally_ok_def logs_ok_def)
qed

theorem jobs_left_invariant_witness:
  "reachable job_returned \<and>
   jobs_left job_returned =
     int (accepted job_returned) + int (injected job_returned) - int (completed job_returned)
     - cnt is_A_Inc (cpcs job_returned) + cnt is_W_Dec (wpcs job_returned) \<and>
   cnt is_A_Inc (cpcs job_returned) = 0 \<and> cnt is_W_Dec (wpcs job_returned) = 1 \<and>
   jobs_left job_returned = 1 \<and>
   accepted job_returned = length (submitted job_returned) \<and>
   int (completed job_returned) =
     cnt is_Finish (events job_returned) + int (injected job_returned)
     - cnt noop_in_hand (wpcs job_returned)"
  using reachable_job_returned jobs_left_invariant[OF reachable_job_returned]
  by (simp add: job_returned_def)


subsection \<open>C6: a second shutdown\<close>

text \<open>
  C6. Once \<^verbatim>\<open>JoinAll\<close> has completed (\<open>finished\<close> is set), a further call of \<^verbatim>\<open>JoinAll\<close>,
  with either argument, takes two transitions, the call and the test \<^verbatim>\<open>if( !finished )\<close>,
  and returns to its caller: the first changes nothing but the caller's program point, and
  the second leaves the state exactly as it was before the call. No thread is joined and no
  member is written.
\<close>

theorem JoinAll_idempotent:
  assumes "finished s" "ended s = None" "c < length (clients s)"
    and "cpc (clients s ! c) = C_Idle" "\<not> dtor (clients s ! c)"
  shows "step (Call c (JoinAll w)) s = Some (set_cpc c (J_Entry w) s) \<and>
         step (Step (Client c)) (set_cpc c (J_Entry w) s) = Some s \<and>
         run [Call c (JoinAll w), Step (Client c)] s = Some s"
proof -
  let ?t = "set_cpc c (J_Entry w) s"
  have 1: "step (Call c (JoinAll w)) s = Some ?t"
    using assms by (simp add: step_call call_JoinAll)
  have "(clients s)[c := (clients s ! c)\<lparr> cpc := C_Idle \<rparr>] = clients s"
    using assms(3,4) by (simp add: list_update_same_conv)
  then have "JoinAll_return c ?t = s"
    using assms(3,5) by (simp add: JoinAll_return_def set_cpc_def)
  moreover have "client_step c ?t = Some (JoinAll_return c ?t)"
    using assms by (intro at_J_Entry_finished) simp_all
  ultimately have 2: "step (Step (Client c)) ?t = Some s"
    using assms(2) by (simp add: step_client)
  from 1 2 show ?thesis by simp
qed

theorem JoinAll_idempotent_witness:
  "finished after_shutdown \<and>
   run [Call 0 (JoinAll True), Step (Client 0)] after_shutdown = Some after_shutdown \<and>
   run [Call 0 (JoinAll False), Step (Client 0)] after_shutdown = Some after_shutdown"
  using JoinAll_idempotent[of after_shutdown 0 True] JoinAll_idempotent[of after_shutdown 0 False]
  by (simp add: after_shutdown_def)


subsection \<open>C5: shutdown\<close>

text \<open>
  The order of \<^verbatim>\<open>JoinAll\<close>, as a property of every transition \<open>a\<close> from a reachable state
  \<open>s\<close> to \<open>s'\<close> and of every caller \<open>c\<close>.
  \<^item> A call \<^verbatim>\<open>JoinAll(true)\<close> on a pool that is not finished enters \<^verbatim>\<open>WaitAll\<close> first, and
    does not write \<open>bailout\<close>.
  \<^item> While it is in \<^verbatim>\<open>WaitAll\<close> it stays there, whatever the other threads do, unless it
    reads \<open>jobs_left\<close> as zero: only a transition of its own from a state with
    \<open>jobs_left = 0\<close> takes it out of the wait, and none of its transitions there writes
    \<open>bailout\<close>. From the end of the wait it goes on to \<^verbatim>\<open>bailout = true\<close>.
  \<^item> A call \<^verbatim>\<open>JoinAll(false)\<close> on a pool that is not finished goes to \<^verbatim>\<open>bailout = true\<close>
    with its first transition, without reading the queue or the counter.
  \<^item> In both cases the transition at \<^verbatim>\<open>bailout = true\<close> sets the flag.
  \<^item> When the call returns, \<open>finished\<close> is set, every worker has left \<^verbatim>\<open>Task\<close> and every
    worker has been joined.
\<close>

lemma JoinAll_order:
  assumes "reachable s" "step a s = Some s'" "c < length (clients s)"
  shows
   "(cpc (clients s ! c) = J_Entry True \<and> \<not> finished s \<and> a = Step (Client c) \<longrightarrow>
        cpc (clients s' ! c) = WA_Test True \<and> bailout s' = bailout s) \<and>
    (drain_waiting (cpc (clients s ! c)) \<longrightarrow>
        (drain_waiting (cpc (clients s' ! c)) \<or>
         jobs_left s = 0 \<and> a = Step (Client c) \<and>
         (cpc (clients s' ! c) = WA_Unlock True \<or> cpc (clients s' ! c) = J_Bail True)) \<and>
        (actor a = Some (Client c) \<longrightarrow> bailout s' = bailout s)) \<and>
    (cpc (clients s ! c) = WA_Unlock True \<and> a = Step (Client c) \<longrightarrow>
        cpc (clients s' ! c) = J_Bail True \<and> bailout s' = bailout s) \<and>
    (cpc (clients s ! c) = J_Entry False \<and> \<not> finished s \<and> a = Step (Client c) \<longrightarrow>
        cpc (clients s' ! c) = J_Bail False) \<and>
    (cpc (clients s ! c) = J_Bail w \<and> a = Step (Client c) \<longrightarrow>
        bailout s' \<and> cpc (clients s' ! c) = J_NotifyAll w) \<and>
    (cpc (clients s ! c) = J_Fin w \<and> a = Step (Client c) \<longrightarrow>
        finished s' \<and>
        cpc (clients s' ! c) = (if dtor (clients s ! c) then C_Destroyed else C_Idle) \<and>
        (\<forall>i < length (threads s').
           wpc (threads s' ! i) = W_Exit \<and> \<not> joinable (threads s' ! i)))"
proof -
  have r': "reachable s'" using assms(1,2) by (rule reachable_step)
  have own: "a = Step (Client c) \<Longrightarrow> client_step c s = Some s'"
    using assms(2) by (cases rule: step_cases) simp_all
  have 1: "cpc (clients s ! c) = J_Entry True \<and> \<not> finished s \<and> a = Step (Client c) \<longrightarrow>
        cpc (clients s' ! c) = WA_Test True \<and> bailout s' = bailout s"
  proof (intro impI, elim conjE)
    assume h: "cpc (clients s ! c) = J_Entry True" "\<not> finished s" "a = Step (Client c)"
    from own[OF h(3)] show "cpc (clients s' ! c) = WA_Test True \<and> bailout s' = bailout s"
      using h(1,2) assms(3) by (cases rule: client_step_cases) simp_all
  qed
  have 2: "drain_waiting (cpc (clients s ! c)) \<longrightarrow>
        (drain_waiting (cpc (clients s' ! c)) \<or>
         jobs_left s = 0 \<and> a = Step (Client c) \<and>
         (cpc (clients s' ! c) = WA_Unlock True \<or> cpc (clients s' ! c) = J_Bail True)) \<and>
        (actor a = Some (Client c) \<longrightarrow> bailout s' = bailout s)"
    using drain_wait_step[OF assms] by blast
  have 3: "cpc (clients s ! c) = WA_Unlock True \<and> a = Step (Client c) \<longrightarrow>
        cpc (clients s' ! c) = J_Bail True \<and> bailout s' = bailout s"
  proof (intro impI, elim conjE)
    assume h: "cpc (clients s ! c) = WA_Unlock True" "a = Step (Client c)"
    from own[OF h(2)] show "cpc (clients s' ! c) = J_Bail True \<and> bailout s' = bailout s"
      using h(1) assms(3) by (cases rule: client_step_cases) simp_all
  qed
  have 4: "cpc (clients s ! c) = J_Entry False \<and> \<not> finished s \<and> a = Step (Client c) \<longrightarrow>
        cpc (clients s' ! c) = J_Bail False"
  proof (intro impI, elim conjE)
    assume h: "cpc (clients s ! c) = J_Entry False" "\<not> finished s" "a = Step (Client c)"
    from own[OF h(3)] show "cpc (clients s' ! c) = J_Bail False"
      using h(1,2) assms(3) by (cases rule: client_step_cases) simp_all
  qed
  have 5: "cpc (clients s ! c) = J_Bail w \<and> a = Step (Client c) \<longrightarrow>
        bailout s' \<and> cpc (clients s' ! c) = J_NotifyAll w"
  proof (intro impI, elim conjE)
    assume h: "cpc (clients s ! c) = J_Bail w" "a = Step (Client c)"
    from own[OF h(2)] show "bailout s' \<and> cpc (clients s' ! c) = J_NotifyAll w"
      using h(1) assms(3) by (cases rule: client_step_cases) simp_all
  qed
  have 6: "cpc (clients s ! c) = J_Fin w \<and> a = Step (Client c) \<longrightarrow>
        finished s' \<and>
        cpc (clients s' ! c) = (if dtor (clients s ! c) then C_Destroyed else C_Idle) \<and>
        (\<forall>i < length (threads s').
           wpc (threads s' ! i) = W_Exit \<and> \<not> joinable (threads s' ! i))"
  proof (intro impI, elim conjE)
    assume h: "cpc (clients s ! c) = J_Fin w" "a = Step (Client c)"
    from own[OF h(2)] have f: "finished s' \<and>
        cpc (clients s' ! c) = (if dtor (clients s ! c) then C_Destroyed else C_Idle)"
      using h(1) assms(3) by (cases rule: client_step_cases) simp_all
    then have "\<forall>i < length (threads s').
           wpc (threads s' ! i) = W_Exit \<and> \<not> joinable (threads s' ! i)"
      using finished_all_exited[OF r'] by blast
    with f show "finished s' \<and>
        cpc (clients s' ! c) = (if dtor (clients s ! c) then C_Destroyed else C_Idle) \<and>
        (\<forall>i < length (threads s').
           wpc (threads s' ! i) = W_Exit \<and> \<not> joinable (threads s' ! i))" by blast
  qed
  from 1 2 3 4 5 6 show ?thesis by blast
qed

lemma JoinAll_order_example:
  "reachable draining \<and> 0 < length (clients draining) \<and>
   step (Step (Client 0)) draining = Some (set_cpc 0 (WA_Wait True) draining) \<and>
   drain_waiting (cpc (clients draining ! 0)) \<and> jobs_left draining = 1 \<and>
   drain_waiting (cpc (clients (set_cpc 0 (WA_Wait True) draining) ! 0)) \<and>
   reachable joined \<and> 0 < length (clients joined) \<and>
   step (Step (Client 0)) joined = Some after_shutdown \<and>
   cpc (clients joined ! 0) = J_Fin False \<and>
   finished after_shutdown \<and>
   wpc (threads after_shutdown ! 0) = W_Exit \<and> \<not> joinable (threads after_shutdown ! 0)"
proof -
  have 1: "step (Step (Client 0)) draining = Some (set_cpc 0 (WA_Wait True) draining)"
    by (simp add: draining_def exec_defs)
  have 2: "step (Step (Client 0)) joined = Some after_shutdown"
    by (simp add: joined_def after_shutdown_def exec_defs)
  have c1: "0 < length (clients draining)" by (simp add: draining_def)
  have c2: "0 < length (clients joined)" by (simp add: joined_def)
  show ?thesis
    using JoinAll_order[OF reachable_draining 1 c1, of True]
      JoinAll_order[OF reachable_joined 2 c2, of False]
      reachable_draining reachable_joined 1 2
    by (simp add: draining_def joined_def after_shutdown_def)
qed

text \<open>
  In the state \<open>hung w\<close> no thread can take a transition: only a spurious wakeup of the
  worker, which the condition variable may produce but need not, changes the state.
\<close>

lemma hung_only_spurious:
  assumes "step a (hung w) = Some t"
  shows "a = Spurious (Worker 0)"
  using assms
proof (cases rule: step_cases)
  case (Call c m)
  from Call(3) show ?thesis
    by (cases rule: call_step_cases) (simp_all add: hung_def)
next
  case (Worker i)
  from Worker(3) show ?thesis
    by (cases rule: worker_step_cases) (simp_all add: hung_def)
next
  case (Client c)
  from Client(3) show ?thesis
    by (cases rule: client_step_cases) (simp_all add: hung_def)
next
  case (Wake t u)
  from Wake(3) show ?thesis
    by (cases rule: wake_step_cases) (simp_all add: hung_def)
next
  case (Spurious u)
  from Spurious(3) show ?thesis using Spurious(1)
    by (cases rule: spurious_step_cases) (simp_all add: hung_def)
qed

text \<open>
  C5 fails on the code, in its last part: \<^verbatim>\<open>JoinAll\<close> need not join the workers and
  return. It executes \<^verbatim>\<open>bailout = true\<close> and \<^verbatim>\<open>job_available_var.notify_all()\<close> without
  holding \<^verbatim>\<open>queue_mutex\<close>, so both can fall between the evaluation of the predicate in
  \<^verbatim>\<open>next_job\<close> and the blocking of the worker. For both values of \<^verbatim>\<open>WaitForAll\<close> the
  execution \<open>hang_trace\<close> ends in \<open>hung\<close>: the flag is set, the worker is blocked on
  \<^verbatim>\<open>job_available_var\<close> and has not left \<^verbatim>\<open>Task\<close>, the caller is in \<^verbatim>\<open>x.join()\<close> on that
  worker, \<open>finished\<close> is not set, and neither thread has a transition.
\<close>

theorem JoinAll_wakeup_lost:
  "run (hang_trace w) (initial_pool 1 1) = Some (hung w) \<and>
   bailout (hung w) \<and> \<not> finished (hung w) \<and> jobs_left (hung w) = 0 \<and>
   cpc (clients (hung w) ! 0) = J_JoinWait w 0 \<and>
   wpc (threads (hung w) ! 0) = W_Blocked \<and> joinable (threads (hung w) ! 0) \<and>
   step (Step (Client 0)) (hung w) = None \<and>
   step (Step (Worker 0)) (hung w) = None \<and>
   step (Wake (Worker 0) (Client 0)) (hung w) = None \<and>
   step (Wake (Client 0) (Worker 0)) (hung w) = None"
proof -
  have "run (hang_trace w) (initial_pool 1 1) = Some (hung w)"
    by (cases w) (simp_all add: hang_trace_def hung_def exec_defs)
  moreover have "step (Step (Client 0)) (hung w) = None"
    "step (Step (Worker 0)) (hung w) = None"
    "step (Wake (Worker 0) (Client 0)) (hung w) = None"
    "step (Wake (Client 0) (Worker 0)) (hung w) = None"
    by (simp_all add: hung_def exec_defs)
  ultimately show ?thesis by (simp add: hung_def)
qed


subsection \<open>C10: the destructor\<close>




subsection \<open>C1: submitting after shutdown\<close>

text \<open>
  C1 as the specification states it fails: after \<^verbatim>\<open>JoinAll(false)\<close> has completed,
  \<^verbatim>\<open>AddJob\<close> runs to its end, returns a future, and leaves the job in the queue and one more
  in \<open>jobs_left\<close>. There is no test of \<open>finished\<close> or \<open>bailout\<close> in \<^verbatim>\<open>AddJob\<close>, and the class
  has no error to report.
\<close>

theorem AddJob_after_shutdown_counterexample:
  "run shutdown_now (initial_pool 1 1) = Some after_shutdown \<and>
   finished after_shutdown \<and>
   run submit_trace after_shutdown = Some submitted_late \<and>
   queue submitted_late = [Packaged 0 (Returns 7)] \<and>
   jobs_left submitted_late = 1 \<and>
   cpc (clients submitted_late ! 0) = C_Idle \<and>
   futs (clients submitted_late ! 0) = [0] \<and>
   ended submitted_late = None"
proof -
  have "run submit_trace after_shutdown = Some submitted_late"
    by (simp add: submit_trace_def after_shutdown_def submitted_late_def exec_defs)
  then show ?thesis
    using run_shutdown_now by (simp add: after_shutdown_def submitted_late_def)
qed

text \<open>
  C1, as the code has it. On a pool whose shutdown has completed, a call of \<^verbatim>\<open>AddJob\<close> that
  finds the queue mutex free runs to its end: it appends the job to the queue, adds one to
  \<open>jobs_left\<close>, and returns the future to its caller, pending. No worker is left, so in
  every continuation of the execution the job is never taken from the queue and never
  started. Its future stays pending as long as the object lives; when the object is
  destroyed, the queue is destroyed with the job in it, and the future holds
  \<^verbatim>\<open>broken_promise\<close>.
\<close>

theorem AddJob_after_shutdown:
  assumes "reachable s" "finished s" "ended s = None" "queue_mutex s = None"
    and "c < length (clients s)" "cpc (clients s ! c) = C_Idle"
  shows "\<exists>s'. run [Call c (AddJob f), Step (Client c), Step (Client c), Step (Client c),
                    Step (Client c), Step (Client c)] s = Some s' \<and>
           queue s' = queue s @ [Packaged (length (futures s)) f] \<and>
           jobs_left s' = jobs_left s + 1 \<and>
           cpc (clients s' ! c) = C_Idle \<and>
           futs (clients s' ! c) = futs (clients s ! c) @ [length (futures s)] \<and>
           futures s' ! length (futures s) = Pending \<and>
           ended s' = None \<and>
           (\<forall>as t. run as s' = Some t \<longrightarrow>
              dequeued t = dequeued s \<and> events t = events s \<and>
              (ended t = None \<longrightarrow> futures t ! length (futures s) = Pending) \<and>
              (ended t = Some Destroyed \<longrightarrow>
                 futures t ! length (futures s) = Broken_promise))"
proof -
  let ?h = "length (futures s)"
  let ?s' = "s\<lparr> queue_mutex := None,
                  futures := futures s @ [Pending],
                  queue := queue s @ [Packaged (length (futures s)) f],
                  submitted := submitted s @ [Packaged (length (futures s)) f],
                  jobs_left := jobs_left s + 1, accepted := accepted s + 1,
                  clients := (clients s)[c := (clients s ! c)
                     \<lparr> cpc := C_Idle, futs := futs (clients s ! c) @ [length (futures s)] \<rparr>] \<rparr>"
  have ex: "all_exited (threads s)"
    using finished_all_exited[OF assms(1,2)] by (simp add: all_exited_def)
  then have nw: "\<not> list_ex job_waiting (threads s)" by (rule all_exited_no_waiter)
  have r: "run [Call c (AddJob f), Step (Client c), Step (Client c), Step (Client c),
                    Step (Client c), Step (Client c)] s = Some ?s'"
    using assms(3,4,5,6) nw by (rule AddJob_alone)
  have ex': "all_exited (threads ?s')" using ex by simp
  have e': "ended ?s' = None" using assms(3) by simp
  have later: "\<forall>as t. run as ?s' = Some t \<longrightarrow>
              dequeued t = dequeued s \<and> events t = events s \<and>
              (ended t = None \<longrightarrow> futures t ! ?h = Pending) \<and>
              (ended t = Some Destroyed \<longrightarrow> futures t ! ?h = Broken_promise)"
  proof (intro allI impI)
    fix as t
    assume "run as ?s' = Some t"
    then have q: "quiet ?s' t" using ex' e' by (rule quiet_run)
    then have "take (length (queue ?s')) (queue t) = queue ?s'" by (simp add: quiet_def)
    then have "set (queue ?s') \<subseteq> set (queue t)" by (metis set_take_subset)
    then have "Packaged ?h f \<in> set (queue t)" by auto
    then have "\<exists>x \<in> set (queue t). queued ?h x" by (rule bexI[rotated]) simp
    then have pos: "0 < cnt (queued ?h) (queue t)" by (simp add: cnt_pos_iff)
    from q have "futures t ! ?h =
           (if ended t = Some Destroyed \<and> futures ?s' ! ?h = Pending \<and>
               0 < cnt (queued ?h) (queue t)
            then Broken_promise else futures ?s' ! ?h)"
      by (simp add: quiet_def)
    with pos have "futures t ! ?h =
           (if ended t = Some Destroyed then Broken_promise else Pending)"
      by simp
    moreover from q have "dequeued t = dequeued s" "events t = events s"
      by (simp_all add: quiet_def)
    ultimately show "dequeued t = dequeued s \<and> events t = events s \<and>
              (ended t = None \<longrightarrow> futures t ! ?h = Pending) \<and>
              (ended t = Some Destroyed \<longrightarrow> futures t ! ?h = Broken_promise)"
      by simp
  qed
  have "queue ?s' = queue s @ [Packaged (length (futures s)) f] \<and>
        jobs_left ?s' = jobs_left s + 1 \<and>
        cpc (clients ?s' ! c) = C_Idle \<and>
        futs (clients ?s' ! c) = futs (clients s ! c) @ [length (futures s)] \<and>
        futures ?s' ! ?h = Pending \<and> ended ?s' = None"
    using assms(3,5) by simp
  with r later show ?thesis by blast
qed

theorem AddJob_after_shutdown_witness:
  "reachable after_shutdown \<and> finished after_shutdown \<and> ended after_shutdown = None \<and>
   queue_mutex after_shutdown = None \<and> 0 < length (clients after_shutdown) \<and>
   cpc (clients after_shutdown ! 0) = C_Idle \<and>
   (\<exists>s'. run [Call 0 (AddJob (Returns 7)), Step (Client 0), Step (Client 0), Step (Client 0),
                    Step (Client 0), Step (Client 0)] after_shutdown = Some s' \<and>
           queue s' = [Packaged 0 (Returns 7)] \<and>
           jobs_left s' = 1 \<and>
           cpc (clients s' ! 0) = C_Idle \<and>
           futs (clients s' ! 0) = [0] \<and>
           futures s' ! 0 = Pending \<and>
           (\<forall>as t. run as s' = Some t \<longrightarrow>
              dequeued t = [] \<and> events t = [] \<and>
              (ended t = None \<longrightarrow> futures t ! 0 = Pending) \<and>
              (ended t = Some Destroyed \<longrightarrow> futures t ! 0 = Broken_promise))) \<and>
   run (submit_trace @ [Call 0 Destroy, Step (Client 0)]) after_shutdown = Some abandoned \<and>
   ended abandoned = Some Destroyed \<and> futures abandoned = [Broken_promise] \<and>
   events abandoned = []"
proof -
  have h: "finished after_shutdown" "ended after_shutdown = None"
    "queue_mutex after_shutdown = None" "0 < length (clients after_shutdown)"
    "cpc (clients after_shutdown ! 0) = C_Idle"
    by (simp_all add: after_shutdown_def)
  have v: "queue after_shutdown = []" "jobs_left after_shutdown = 0"
    "futs (clients after_shutdown ! 0) = []" "futures after_shutdown = []"
    "dequeued after_shutdown = []" "events after_shutdown = []"
    by (simp_all add: after_shutdown_def)
  have d: "run (submit_trace @ [Call 0 Destroy, Step (Client 0)]) after_shutdown =
             Some abandoned"
    by (simp add: submit_trace_def after_shutdown_def abandoned_def exec_defs)
  have a: "ended abandoned = Some Destroyed" "futures abandoned = [Broken_promise]"
    "events abandoned = []"
    by (simp_all add: abandoned_def)
  show ?thesis
    using AddJob_after_shutdown[OF reachable_after_shutdown h, of "Returns 7"]
      reachable_after_shutdown h d a
    by (simp add: v) blast
qed


subsection \<open>C4: \<^verbatim>\<open>next_job\<close> when the pool bails out\<close>

text \<open>
  C4. Let worker \<open>i\<close> be in \<^verbatim>\<open>next_job\<close> at the test \<^verbatim>\<open>if( !bailout )\<close> with the flag set, or
  further on that branch. Then no transition of any thread changes the queue or takes an
  element from it. The worker's own transitions go from the test to \<^verbatim>\<open>res = []{}; ++jobs_left\<close>,
  which adds one to \<open>jobs_left\<close>, and to the return of the empty job; the transitions of the
  other threads leave the worker where it is, still on that branch. Run without
  interruption from the test, the call returns the empty job with the queue as it was and
  \<open>jobs_left\<close> one higher.
\<close>

theorem next_job_bailout:
  assumes "reachable s" "i < length (threads s)"
    and "bailing (bailout s) (wpc (threads s ! i))" "step a s = Some s'"
  shows "queue s' = queue s \<and> dequeued s' = dequeued s \<and>
    (actor a = Some (Worker i) \<longrightarrow>
       a = Step (Worker i) \<and>
       (wpc (threads s ! i) = W_Test \<longrightarrow>
          wpc (threads s' ! i) = W_Inject \<and> jobs_left s' = jobs_left s) \<and>
       (wpc (threads s ! i) = W_Inject \<longrightarrow>
          wpc (threads s' ! i) = W_Unlock Noop \<and> jobs_left s' = jobs_left s + 1) \<and>
       (wpc (threads s ! i) = W_Unlock Noop \<longrightarrow>
          wpc (threads s' ! i) = W_Call Noop \<and> jobs_left s' = jobs_left s)) \<and>
    (actor a \<noteq> Some (Worker i) \<longrightarrow>
       wpc (threads s' ! i) = wpc (threads s ! i) \<and>
       bailing (bailout s') (wpc (threads s' ! i))) \<and>
    (wpc (threads s ! i) = W_Test \<longrightarrow>
       run [Step (Worker i), Step (Worker i), Step (Worker i)] s =
         Some (set_wpc i (W_Call Noop)
                 (s\<lparr> jobs_left := jobs_left s + 1, injected := injected s + 1,
                     queue_mutex := None \<rparr>)))"
proof -
  have crit: "in_next_job (wpc (threads s ! i))"
    using assms(3) by (rule bailing_in_next_job)
  have e: "ended s = None"
    using assms(4) by (cases rule: step_cases) simp_all
  have other: "actor a \<noteq> Some (Worker i) \<longrightarrow>
       queue s' = queue s \<and> dequeued s' = dequeued s \<and>
       wpc (threads s' ! i) = wpc (threads s ! i) \<and>
       bailing (bailout s') (wpc (threads s' ! i))"
  proof
    assume o: "actor a \<noteq> Some (Worker i)"
    from holder_frame[OF assms(1,4,2) crit o]
    have f: "queue s' = queue s \<and> dequeued s' = dequeued s \<and>
       wpc (threads s' ! i) = wpc (threads s ! i)" .
    have "bailout s \<longrightarrow> bailout s'" using assms(4) by (blast intro: bailout_mono)
    with assms(3) have "bailing (bailout s') (wpc (threads s ! i))" by (rule bailing_mono)
    with f show "queue s' = queue s \<and> dequeued s' = dequeued s \<and>
       wpc (threads s' ! i) = wpc (threads s ! i) \<and>
       bailing (bailout s') (wpc (threads s' ! i))" by simp
  qed
  have own: "actor a = Some (Worker i) \<longrightarrow>
       queue s' = queue s \<and> dequeued s' = dequeued s \<and>
       a = Step (Worker i) \<and>
       (wpc (threads s ! i) = W_Test \<longrightarrow>
          wpc (threads s' ! i) = W_Inject \<and> jobs_left s' = jobs_left s) \<and>
       (wpc (threads s ! i) = W_Inject \<longrightarrow>
          wpc (threads s' ! i) = W_Unlock Noop \<and> jobs_left s' = jobs_left s + 1) \<and>
       (wpc (threads s ! i) = W_Unlock Noop \<longrightarrow>
          wpc (threads s' ! i) = W_Call Noop \<and> jobs_left s' = jobs_left s)"
  proof
    assume o: "actor a = Some (Worker i)"
    from assms(4) have a: "a = Step (Worker i)"
    proof (cases rule: step_cases)
      case (Wake t u)
      from Wake(3) show ?thesis using Wake(1) o crit
        by (cases rule: wake_step_cases) auto
    qed (use o in simp_all)
    with assms(4) e have w: "worker_step i s = Some s'" by (simp add: step_worker)
    from w show "queue s' = queue s \<and> dequeued s' = dequeued s \<and>
       a = Step (Worker i) \<and>
       (wpc (threads s ! i) = W_Test \<longrightarrow>
          wpc (threads s' ! i) = W_Inject \<and> jobs_left s' = jobs_left s) \<and>
       (wpc (threads s ! i) = W_Inject \<longrightarrow>
          wpc (threads s' ! i) = W_Unlock Noop \<and> jobs_left s' = jobs_left s + 1) \<and>
       (wpc (threads s ! i) = W_Unlock Noop \<longrightarrow>
          wpc (threads s' ! i) = W_Call Noop \<and> jobs_left s' = jobs_left s)"
      using a assms(2,3)
      by (cases rule: worker_step_cases) simp_all
  qed
  have alone: "wpc (threads s ! i) = W_Test \<longrightarrow>
       run [Step (Worker i), Step (Worker i), Step (Worker i)] s =
         Some (set_wpc i (W_Call Noop)
                 (s\<lparr> jobs_left := jobs_left s + 1, injected := injected s + 1,
                     queue_mutex := None \<rparr>))"
  proof
    assume t: "wpc (threads s ! i) = W_Test"
    with assms(3) have "bailout s" by simp
    with assms(2) t show "run [Step (Worker i), Step (Worker i), Step (Worker i)] s =
         Some (set_wpc i (W_Call Noop)
                 (s\<lparr> jobs_left := jobs_left s + 1, injected := injected s + 1,
                     queue_mutex := None \<rparr>))"
      using e by (rule bail_alone)
  qed
  from other own alone show ?thesis by blast
qed


theorem next_job_bailout_witness:
  "reachable bailing_out \<and> 0 < length (threads bailing_out) \<and>
   bailing (bailout bailing_out) (wpc (threads bailing_out ! 0)) \<and>
   step (Step (Worker 0)) bailing_out = Some (set_wpc 0 W_Inject bailing_out) \<and>
   queue (set_wpc 0 W_Inject bailing_out) = [Packaged 0 (Returns 7)] \<and>
   dequeued (set_wpc 0 W_Inject bailing_out) = [] \<and>
   run [Step (Worker 0), Step (Worker 0), Step (Worker 0)] bailing_out =
     Some (set_wpc 0 (W_Call Noop)
             (bailing_out\<lparr> jobs_left := 2, injected := 1, queue_mutex := None \<rparr>))"
proof -
  have 1: "step (Step (Worker 0)) bailing_out = Some (set_wpc 0 W_Inject bailing_out)"
    by (simp add: bailing_out_def exec_defs)
  have 2: "0 < length (threads bailing_out)"
    "bailing (bailout bailing_out) (wpc (threads bailing_out ! 0))"
    by (simp_all add: bailing_out_def)
  have 3: "jobs_left bailing_out = 1" "injected bailing_out = 0"
    "wpc (threads bailing_out ! 0) = W_Test" "queue bailing_out = [Packaged 0 (Returns 7)]"
    "dequeued bailing_out = []"
    by (simp_all add: bailing_out_def)
  show ?thesis
    using next_job_bailout[OF reachable_bailing_out 2 1] reachable_bailing_out 1 2
    by (simp add: 3)
qed


subsection \<open>C8: a job that throws\<close>

text \<open>
  C8. When a worker runs a submitted job to its end, what the callable does, return or throw,
  goes into the shared state of that job's future and nowhere else: \<^verbatim>\<open>AddJob\<close> wraps the
  callable in a \<^verbatim>\<open>std::packaged_task\<close>, whose call stores the exception. The worker then
  executes \<^verbatim>\<open>--jobs_left\<close> and \<^verbatim>\<open>wait_var.notify_one()\<close>; the state after these transitions
  is the same function of the state before for every callable, the stored result apart, and
  \<^verbatim>\<open>std::terminate\<close> is not called. For a callable that throws \<open>e\<close>, \<^verbatim>\<open>get\<close> on the future
  rethrows \<open>e\<close>.
\<close>

theorem job_failure_is_captured:
  assumes "reachable s" "i < length (threads s)" "wpc (threads s ! i) = W_Exec h f"
    and "ended s = None"
  shows "\<exists>t. run [Step (Worker i), Step (Worker i)] s = Some t \<and>
           t = set_wpc i W_Notify
                 (s\<lparr> futures := (futures s)[h := packaged_task_call f],
                     events := events s @ [Finish h],
                     jobs_left := jobs_left s - 1, completed := completed s + 1 \<rparr>) \<and>
           ended t = None \<and>
           future_get (futures t ! h) =
             Some (case f of Returns v \<Rightarrow> Inr v | Throws e \<Rightarrow> Inl e) \<and>
           (\<not> list_ex idle_waiting (clients s) \<longrightarrow>
              step (Step (Worker i)) t = Some (set_wpc i W_Loop t)) \<and>
           (\<forall>c k. c < length (clients s) \<and> cpc (clients s ! c) = WA_Blocked k \<longrightarrow>
              step (Wake (Worker i) (Client c)) t =
                Some (set_wpc i W_Loop (set_cpc c (WA_Woken k) t)))"
proof -
  have p: "h < length (futures s)" "futures s ! h = Pending"
    using running_is_pending[OF assms(1,2,3)] by simp_all
  let ?s1 = "set_wpc i W_Dec
               (s\<lparr> futures := (futures s)[h := packaged_task_call f],
                   events := events s @ [Finish h],
                   completed := completed s + 1 \<rparr>)"
  let ?s2 = "set_wpc i W_Notify (?s1\<lparr> jobs_left := jobs_left ?s1 - 1 \<rparr>)"
  let ?t = "set_wpc i W_Notify
                 (s\<lparr> futures := (futures s)[h := packaged_task_call f],
                     events := events s @ [Finish h],
                     jobs_left := jobs_left s - 1, completed := completed s + 1 \<rparr>)"
  have 1: "step (Step (Worker i)) s = Some ?s1"
    using assms p by (simp add: step_worker at_W_Exec)
  have 2: "step (Step (Worker i)) ?s1 = Some ?s2"
    using assms by (simp add: step_worker at_W_Dec)
  have eq: "?s2 = ?t"
    using assms(2) by (simp add: set_wpc_def)
  have r: "run [Step (Worker i), Step (Worker i)] s = Some ?t"
    using eq by (simp only: run.simps 1 2 option.case)
  have e: "ended ?t = None" using assms(4) by simp
  have g: "future_get (futures ?t ! h) =
             Some (case f of Returns v \<Rightarrow> Inr v | Throws e \<Rightarrow> Inl e)"
    using p(1) by (cases f) simp_all
  have n1: "\<not> list_ex idle_waiting (clients s) \<longrightarrow>
              step (Step (Worker i)) ?t = Some (set_wpc i W_Loop ?t)"
    using assms(2) e by (simp add: step_worker at_W_Notify)
  have n2: "\<forall>c k. c < length (clients s) \<and> cpc (clients s ! c) = WA_Blocked k \<longrightarrow>
              step (Wake (Worker i) (Client c)) ?t =
                Some (set_wpc i W_Loop (set_cpc c (WA_Woken k) ?t))"
    using assms(2) e by (simp add: step_wake wake_at_W_Notify)
  from r e g n1 n2 show ?thesis by blast
qed

theorem job_failure_is_captured_witness:
  "reachable job_failing \<and> 0 < length (threads job_failing) \<and>
   wpc (threads job_failing ! 0) = W_Exec 0 (Throws ''boom'') \<and> ended job_failing = None \<and>
   (\<exists>t. run [Step (Worker 0), Step (Worker 0)] job_failing = Some t \<and>
        ended t = None \<and> jobs_left t = 0 \<and> wpc (threads t ! 0) = W_Notify \<and>
        futures t = [Exception ''boom''] \<and>
        future_get (futures t ! 0) = Some (Inl ''boom'') \<and>
        step (Step (Worker 0)) t = Some (set_wpc 0 W_Loop t))"
proof -
  have h: "0 < length (threads job_failing)"
    "wpc (threads job_failing ! 0) = W_Exec 0 (Throws ''boom'')" "ended job_failing = None"
    by (simp_all add: job_failing_def)
  have v: "\<not> list_ex idle_waiting (clients job_failing)" "jobs_left job_failing = 1"
    "futures job_failing = [Pending]"
    by (simp_all add: job_failing_def idle_waiting_def)
  show ?thesis
    using job_failure_is_captured[OF reachable_job_failing h] reachable_job_failing h v(1)
    by (auto simp: v(2,3))
qed


subsection \<open>C9: the wakeup of \<^verbatim>\<open>WaitAll\<close>\<close>

text \<open>
  In the state \<open>stuck\<close> no thread can take a transition: only a spurious wakeup, which the
  condition variable may produce but need not, changes the state.
\<close>

lemma stuck_only_spurious:
  assumes "step a stuck = Some t"
  shows "\<exists>u. a = Spurious u"
  using assms
proof (cases rule: step_cases)
  case (Call c m)
  from Call(3) show ?thesis
    by (cases rule: call_step_cases) (simp_all add: stuck_def)
next
  case (Worker i)
  from Worker(3) show ?thesis
    by (cases rule: worker_step_cases) (simp_all add: stuck_def)
next
  case (Client c)
  from Client(3) show ?thesis
    by (cases rule: client_step_cases) (simp_all add: stuck_def)
next
  case (Wake t u)
  from Wake(3) show ?thesis
    by (cases rule: wake_step_cases) (simp_all add: stuck_def)
next
  case (Spurious u)
  then show ?thesis by blast
qed

text \<open>
  C9 fails on the code. \<^verbatim>\<open>Task\<close> executes \<^verbatim>\<open>--jobs_left\<close> and \<^verbatim>\<open>wait_var.notify_one()\<close>
  without holding \<^verbatim>\<open>wait_mutex\<close>, so both can fall between the evaluation of the predicate
  in \<^verbatim>\<open>WaitAll\<close> and the blocking of its caller. The execution \<open>lost_wakeup_trace\<close> ends in
  \<open>stuck\<close>: the counter is zero, the caller of \<^verbatim>\<open>WaitAll\<close> is blocked on \<^verbatim>\<open>wait_var\<close>, the
  worker is blocked on \<^verbatim>\<open>job_available_var\<close>, and neither thread has a transition.
\<close>

theorem lost_wakeup:
  "run lost_wakeup_trace (initial_pool 1 1) = Some stuck \<and>
   jobs_left stuck = 0 \<and> queue stuck = [] \<and>
   cpc (clients stuck ! 0) = WA_Blocked False \<and>
   wpc (threads stuck ! 0) = W_Blocked \<and>
   step (Step (Client 0)) stuck = None \<and>
   step (Step (Worker 0)) stuck = None \<and>
   step (Wake (Worker 0) (Client 0)) stuck = None \<and>
   step (Wake (Client 0) (Worker 0)) stuck = None"
proof -
  have "run lost_wakeup_trace (initial_pool 1 1) = Some stuck"
    by (simp add: lost_wakeup_trace_def stuck_def exec_defs)
  moreover have "step (Step (Client 0)) stuck = None" "step (Step (Worker 0)) stuck = None"
    "step (Wake (Worker 0) (Client 0)) stuck = None"
    "step (Wake (Client 0) (Worker 0)) stuck = None"
    by (simp_all add: stuck_def exec_defs)
  ultimately show ?thesis by (simp add: stuck_def)
qed


subsection \<open>C7: first in, first out\<close>

text \<open>
  C7. Let \<open>a\<close> and \<open>b\<close> be futures that \<^verbatim>\<open>AddJob\<close> has returned to the same caller, \<open>a\<close>
  before \<open>b\<close>. If the job of \<open>b\<close> has been taken from the queue, then the job of \<open>a\<close> has
  been taken before it. In a pool of one worker, if the job of \<open>b\<close> has started, then the
  job of \<open>a\<close> has ended before that start. (When the pool bails out, \<^verbatim>\<open>next_job\<close> takes
  nothing from the queue, so that the job of \<open>b\<close> may never be taken.)
\<close>

theorem fifo_order:
  assumes "reachable s" "c < length (clients s)"
    and "ka < kb" "kb < length (futs (clients s ! c))"
    and "a = futs (clients s ! c) ! ka" "b = futs (clients s ! c) ! kb"
  shows "(Packaged b g \<in> set (dequeued s) \<longrightarrow>
            (\<exists>i j f. i < j \<and> j < length (dequeued s) \<and>
               dequeued s ! i = Packaged a f \<and> dequeued s ! j = Packaged b g)) \<and>
         (length (threads s) = 1 \<and> Start b \<in> set (events s) \<longrightarrow>
            (\<exists>i j. i < j \<and> j < length (events s) \<and>
               events s ! i = Finish a \<and> events s ! j = Start b))"
proof -
  have fifo: "fifo_ok (submitted s) (dequeued s) (queue s) (futures s)"
    using inv_fifo_reachable[OF assms(1)] by (simp add: inv_fifo_def)
  have "futs_ok (clients s) (length (futures s))"
    using inv_futs_reachable[OF assms(1)] by (simp add: inv_futs_def)
  then have ab: "a < b"
    unfolding assms(5,6) using assms(2,3,4) by (rule futs_increase)
  have 1: "Packaged b g \<in> set (dequeued s) \<longrightarrow>
            (\<exists>i j f. i < j \<and> j < length (dequeued s) \<and>
               dequeued s ! i = Packaged a f \<and> dequeued s ! j = Packaged b g)"
  proof
    assume "Packaged b g \<in> set (dequeued s)"
    with fifo have b: "b < length (dequeued s)" "dequeued s ! b = Packaged b g"
      using fifo_dequeued_index by blast+
    from ab b(1) have "a < length (dequeued s)" by simp
    with fifo obtain f where "dequeued s ! a = Packaged a f"
      using fifo_dequeued_nth by blast
    with ab b show "\<exists>i j f. i < j \<and> j < length (dequeued s) \<and>
               dequeued s ! i = Packaged a f \<and> dequeued s ! j = Packaged b g"
      by blast
  qed
  have 2: "length (threads s) = 1 \<and> Start b \<in> set (events s) \<longrightarrow>
            (\<exists>i j. i < j \<and> j < length (events s) \<and>
               events s ! i = Finish a \<and> events s ! j = Start b)"
  proof
    assume h: "length (threads s) = 1 \<and> Start b \<in> set (events s)"
    let ?m = "length (dequeued s)"
    let ?B = "bracket [0..<?m]"
    have "serial_ok (wpcs s) (dequeued s) (events s)"
      using inv_serial_reachable[OF assms(1)] by (simp add: inv_serial_def)
    with h have "events s @ owed (wpcs s ! 0) = bracket (map job_handle (dequeued s))"
      by (simp add: serial_ok_def)
    then have pre: "events s @ owed (wpcs s ! 0) = ?B"
      using fifo_dequeued_handles[OF fifo] by simp
    then have len: "length (events s) \<le> 2 * ?m"
      by (metis le_add1 length_append length_bracket length_upt minus_nat.diff_0)
    have at: "\<And>k. k < length (events s) \<Longrightarrow> events s ! k = ?B ! k"
      using pre by (metis nth_append)
    from h obtain j where j: "j < length (events s)" "events s ! j = Start b"
      by (auto simp: in_set_conv_nth)
    with at[of j] len have "j < 2 * ?m" "?B ! j = Start b" by simp_all
    then have jb: "j = 2 * b" "b < ?m" using bracket_upt_Start by blast+
    from ab jb(2) have "a < ?m" by simp
    then have "?B ! (2 * a + 1) = Finish a" using bracket_upt_nth by blast
    moreover have i: "2 * a + 1 < j" using ab jb(1) by simp
    ultimately have "events s ! (2 * a + 1) = Finish a"
      using at[of "2 * a + 1"] j(1) by simp
    with i j show "\<exists>i j. i < j \<and> j < length (events s) \<and>
               events s ! i = Finish a \<and> events s ! j = Start b"
      by blast
  qed
  from 1 2 show ?thesis by blast
qed


theorem fifo_order_witness:
  "reachable two_jobs \<and> 0 < length (clients two_jobs) \<and>
   futs (clients two_jobs ! 0) = [0, 1] \<and>
   Packaged 1 (Returns 2) \<in> set (dequeued two_jobs) \<and>
   (\<exists>i j f. i < j \<and> j < length (dequeued two_jobs) \<and>
      dequeued two_jobs ! i = Packaged 0 f \<and> dequeued two_jobs ! j = Packaged 1 (Returns 2)) \<and>
   length (threads two_jobs) = 1 \<and> Start 1 \<in> set (events two_jobs) \<and>
   (\<exists>i j. i < j \<and> j < length (events two_jobs) \<and>
      events two_jobs ! i = Finish 0 \<and> events two_jobs ! j = Start 1)"
proof -
  have h: "0 < length (clients two_jobs)" "(0::nat) < 1"
    "1 < length (futs (clients two_jobs ! 0))"
    "0 = futs (clients two_jobs ! 0) ! 0" "1 = futs (clients two_jobs ! 0) ! 1"
    by (simp_all add: two_jobs_def)
  have v: "futs (clients two_jobs ! 0) = [0, 1]"
    "Packaged 1 (Returns 2) \<in> set (dequeued two_jobs)"
    "length (threads two_jobs) = 1" "Start 1 \<in> set (events two_jobs)"
    by (simp_all add: two_jobs_def)
  show ?thesis
    using fifo_order[OF reachable_two_jobs h, of "Returns 2"] reachable_two_jobs h(1) v
    by simp
qed


end
